theory Spec2Isabelle
  imports Complex_Main
begin

section \<open>A chained hash table with automatic growth\<close>

text \<open>
  The development embeds \<^verbatim>\<open>hashMap.hpp\<close>: the class templates \<^verbatim>\<open>Entry\<close>,
  \<^verbatim>\<open>HashMap\<close>, \<^verbatim>\<open>HashIterator\<close> and the collection views.

  Modelling decisions.
  \<^item> \<^verbatim>\<open>std::hash<K>\<close> is a parameter \<open>hasher\<close> of every operation that hashes.
  \<^item> A chain of \<^verbatim>\<open>Entry\<close> nodes linked by \<^verbatim>\<open>m_next\<close> is a list of entries; the bucket
    array is a list of chains. A pointer to a bucket is its index; a pointer to an entry
    returned by a lookup is the pair of bucket index and position in the chain; the
    cursor's \<^verbatim>\<open>m_currEntry\<close> is the chain from the current node on, \<open>[]\<close> for
    \<^verbatim>\<open>nullptr\<close>.
  \<^item> \<^verbatim>\<open>size_t\<close> is \<open>nat\<close>. Increments and the doubling of the capacity cannot leave
    the range of \<^verbatim>\<open>size_t\<close> before memory is exhausted; the decrement of \<^verbatim>\<open>m_count\<close>
    wraps at zero and is written out.
  \<^item> \<^verbatim>\<open>float m_loadFactor\<close> is the rational value of the float: the literal
    \<^verbatim>\<open>0.75f\<close> is \<open>3 / 4\<close> and \<^verbatim>\<open>0.7f\<close> is \<open>11744051 / 2 ^ 24\<close>. The product
    \<^verbatim>\<open>m_loadFactor * m_capacity\<close> is computed in single precision: the capacity is
    rounded to a float, the product is rounded to a float (24 significant bits, to
    nearest, ties to even), and the conversion to \<^verbatim>\<open>size_t\<close> truncates. The exponent
    has no bounds here: overflow needs a product of \<open>2 ^ 128\<close>, and below \<open>2 ^ -126\<close>
    this rounding and the subnormal one both truncate to 0. A product below zero, whose
    conversion is undefined, gives the threshold 0.
  \<^item> Undefined behaviour (division by zero, a read outside an array, a null dereference)
    is a \<open>fault\<close>. \<^verbatim>\<open>PlaceInBucket\<close> and \<^verbatim>\<open>Reallocate\<close> call each other, and the
    nesting has no bound in the source, so both take fuel: one unit for each call of
    \<^verbatim>\<open>Reallocate\<close> that is open at the same time.
\<close>

datatype fault = DivisionByZero | OutOfBounds | NullDereference | OutOfFuel

subsection \<open>Entry\<close>

record ('k, 'v) Entry =
  m_hashCode :: nat
  m_key :: 'k
  m_value :: 'v

type_synonym ('k, 'v) chain = "('k, 'v) Entry list"

definition Entry_new :: "('k \<Rightarrow> nat) \<Rightarrow> 'k \<Rightarrow> 'v \<Rightarrow> ('k, 'v) Entry" where
  "Entry_new hasher k v = \<lparr>m_hashCode = hasher k, m_key = k, m_value = v\<rparr>"

subsection \<open>HashMap\<close>

record ('k, 'v) HashMap =
  m_buckets :: "('k, 'v) chain list"
  m_capacity :: nat
  m_count :: nat
  m_loadFactor :: rat
  m_maxCount :: nat

definition SIZE_MAX :: nat where
  "SIZE_MAX = 2 ^ 64 - 1"

text \<open>
  Rounding to single precision: scale by powers of two into the range of the 24-bit
  significands, round to the nearest integer, ties to the even one, and scale back.
\<close>

definition round_even :: "rat \<Rightarrow> int" where
  "round_even x =
     (let f = \<lfloor>x\<rfloor>; d = x - of_int f
      in if d < 1 / 2 then f else if 1 / 2 < d then f + 1 else if even f then f else f + 1)"

function float_round :: "rat \<Rightarrow> rat" where
  "float_round x =
     (if x \<le> 0 then 0
      else if 2 ^ 24 \<le> x then 2 * float_round (x / 2)
      else if x < 2 ^ 23 then float_round (2 * x) / 2
      else of_int (round_even x))"
  by pat_completeness auto
termination
proof (relation "measure (\<lambda>x. if 2 ^ 24 \<le> x then nat \<lfloor>x\<rfloor> else nat \<lceil>2 ^ 24 / x\<rceil>)", goal_cases)
  case 1
  show ?case by simp
next
  case (2 x)
  then have big: "(2::rat) ^ 24 \<le> x" by simp
  then have fx: "(2::int) ^ 24 \<le> \<lfloor>x\<rfloor>" by (simp add: le_floor_iff)
  show ?case
  proof (cases "(2::rat) ^ 24 \<le> x / 2")
    case True
    have "of_int \<lfloor>x / 2\<rfloor> \<le> x / 2" by (rule of_int_floor_le)
    moreover have "x < of_int \<lfloor>x\<rfloor> + 1" by linarith
    moreover from fx have "(1::int) \<le> \<lfloor>x\<rfloor>" by simp
    then have "(1::rat) \<le> of_int \<lfloor>x\<rfloor>" by (simp only: of_int_1_le_iff)
    ultimately have "(of_int \<lfloor>x / 2\<rfloor> :: rat) < of_int \<lfloor>x\<rfloor>" by linarith
    then have "\<lfloor>x / 2\<rfloor> < \<lfloor>x\<rfloor>" by (simp only: of_int_less_iff)
    moreover from True have "0 \<le> \<lfloor>x / 2\<rfloor>" by simp
    ultimately show ?thesis using True big by simp
  next
    case False
    from big have "2 ^ 24 / (x / 2) \<le> 2" by (simp add: field_simps)
    then have "\<lceil>2 ^ 24 / (x / 2)\<rceil> \<le> 2" by (simp only: ceiling_le_iff of_int_numeral)
    moreover from fx have "(3::int) \<le> \<lfloor>x\<rfloor>" by simp
    ultimately have "nat \<lceil>2 ^ 24 / (x / 2)\<rceil> < nat \<lfloor>x\<rfloor>" by linarith
    with False big show ?thesis by simp
  qed
next
  case (3 x)
  then have pos: "0 < x" and small: "x < 2 ^ 23" by simp_all
  let ?z = "2 ^ 23 / x"
  from pos small have z: "1 < ?z" by (simp add: field_simps)
  have "of_int \<lceil>?z\<rceil> < ?z + 1" by linarith
  also from z have "\<dots> < 2 * ?z" by simp
  also have "\<dots> \<le> of_int \<lceil>2 * ?z\<rceil>" by linarith
  finally have "\<lceil>?z\<rceil> < \<lceil>2 * ?z\<rceil>" by simp
  moreover from pos have "0 < \<lceil>?z\<rceil>" by simp
  moreover from pos have "2 ^ 24 / (2 * x) = ?z" "2 ^ 24 / x = 2 * ?z" by simp_all
  ultimately show ?case using small pos by simp
qed

declare float_round.simps [simp del]

text \<open>
  \<^verbatim>\<open>m_loadFactor * m_capacity\<close> as a float, and its conversion to \<^verbatim>\<open>size_t\<close>: the value
  that the constructor and \<^verbatim>\<open>Reallocate\<close> store in \<^verbatim>\<open>m_maxCount\<close>.
\<close>

definition loadProduct :: "rat \<Rightarrow> nat \<Rightarrow> rat" where
  "loadProduct loadFactor capacity = float_round (loadFactor * float_round (of_nat capacity))"

definition threshold :: "rat \<Rightarrow> nat \<Rightarrow> nat" where
  "threshold loadFactor capacity = nat \<lfloor>loadProduct loadFactor capacity\<rfloor>"

definition HashMap_new :: "nat \<Rightarrow> rat \<Rightarrow> ('k, 'v) HashMap" where
  "HashMap_new initialCapacity loadFactor =
     \<lparr>m_buckets = replicate initialCapacity [],
      m_capacity = initialCapacity,
      m_count = 0,
      m_loadFactor = loadFactor,
      m_maxCount = threshold loadFactor initialCapacity\<rparr>"

definition Count :: "('k, 'v) HashMap \<Rightarrow> nat" where
  "Count t = m_count t"

definition GetBucket :: "('k \<Rightarrow> nat) \<Rightarrow> 'k \<Rightarrow> ('k, 'v) HashMap \<Rightarrow> fault + nat" where
  "GetBucket hasher k t =
     (if m_capacity t = 0 then Inl DivisionByZero else Inr (hasher k mod m_capacity t))"

text \<open>
  The chain walk of \<^verbatim>\<open>PlaceInBucket\<close>: overwrite the value of the entry with the same
  hash code and key, or link a new entry behind the last one.
\<close>

fun chainPlace :: "('k \<Rightarrow> nat) \<Rightarrow> 'k \<Rightarrow> 'v \<Rightarrow> ('k, 'v) chain \<Rightarrow> bool \<times> ('k, 'v) chain" where
  "chainPlace hasher k v [] = (False, [Entry_new hasher k v])"
| "chainPlace hasher k v (e # es) =
     (if m_hashCode e = hasher k \<and> m_key e = k then (True, e\<lparr>m_value := v\<rparr> # es)
      else (case chainPlace hasher k v es of (found, es') \<Rightarrow> (found, e # es')))"

text \<open>
  \<^verbatim>\<open>Reallocate\<close> reads \<^verbatim>\<open>m_capacity / 2\<close> again at every turn of its outer loop and
  \<^verbatim>\<open>oldBuckets[i]\<close> has as many slots as the capacity had when the call began.
\<close>

function PlaceInBucket ::
    "('k \<Rightarrow> nat) \<Rightarrow> nat \<Rightarrow> nat \<Rightarrow> 'k \<Rightarrow> 'v \<Rightarrow> ('k, 'v) HashMap
      \<Rightarrow> fault + bool \<times> ('k, 'v) HashMap"
  and Reallocate :: "('k \<Rightarrow> nat) \<Rightarrow> nat \<Rightarrow> ('k, 'v) HashMap \<Rightarrow> fault + ('k, 'v) HashMap"
  and ReallocateLoop ::
    "('k \<Rightarrow> nat) \<Rightarrow> nat \<Rightarrow> ('k, 'v) chain list \<Rightarrow> nat \<Rightarrow> ('k, 'v) HashMap
      \<Rightarrow> fault + ('k, 'v) HashMap"
  and ReallocateChain ::
    "('k \<Rightarrow> nat) \<Rightarrow> nat \<Rightarrow> ('k, 'v) chain \<Rightarrow> ('k, 'v) HashMap \<Rightarrow> fault + ('k, 'v) HashMap"
where
  "PlaceInBucket hasher fuel bucket k v t =
     (if length (m_buckets t) \<le> bucket then Inl OutOfBounds
      else (case chainPlace hasher k v (m_buckets t ! bucket) of
              (True, c) \<Rightarrow> Inr (True, t\<lparr>m_buckets := (m_buckets t)[bucket := c]\<rparr>)
            | (False, c) \<Rightarrow>
                (let t1 = t\<lparr>m_buckets := (m_buckets t)[bucket := c], m_count := m_count t + 1\<rparr>
                 in if m_maxCount t1 < m_count t1
                    then (case fuel of
                            0 \<Rightarrow> Inl OutOfFuel
                          | Suc fuel' \<Rightarrow>
                              (case Reallocate hasher fuel' t1 of
                                 Inl f \<Rightarrow> Inl f
                               | Inr t2 \<Rightarrow> Inr (False, t2)))
                    else Inr (False, t1))))"
| "Reallocate hasher fuel t =
     ReallocateLoop hasher fuel (m_buckets t) 0
       (t\<lparr>m_buckets := replicate (m_capacity t * 2) [],
          m_capacity := m_capacity t * 2,
          m_maxCount := threshold (m_loadFactor t) (m_capacity t * 2),
          m_count := 0\<rparr>)"
| "ReallocateLoop hasher fuel oldBuckets i t =
     (if i < m_capacity t div 2
      then (if length oldBuckets \<le> i then Inl OutOfBounds
            else (case ReallocateChain hasher fuel (oldBuckets ! i) t of
                    Inl f \<Rightarrow> Inl f
                  | Inr t' \<Rightarrow> ReallocateLoop hasher fuel oldBuckets (i + 1) t'))
      else Inr t)"
| "ReallocateChain hasher fuel [] t = Inr t"
| "ReallocateChain hasher fuel (e # es) t =
     (case GetBucket hasher (m_key e) t of
        Inl f \<Rightarrow> Inl f
      | Inr bucket \<Rightarrow>
          (case PlaceInBucket hasher fuel bucket (m_key e) (m_value e) t of
             Inl f \<Rightarrow> Inl f
           | Inr (_, t') \<Rightarrow> ReallocateChain hasher fuel es t'))"
  by pat_completeness auto
termination
  by (relation "inv_image (less_than <*lex*> less_than <*lex*> less_than)
          (\<lambda>x. case x of
              Inl (Inl (h, fuel, b, k, v, t)) \<Rightarrow> (fuel, 0::nat, 0::nat)
            | Inl (Inr (h, fuel, t)) \<Rightarrow> (fuel, 3, 0)
            | Inr (Inl (h, fuel, old, i, t)) \<Rightarrow> (fuel, 2, length old - i)
            | Inr (Inr (h, fuel, c, t)) \<Rightarrow> (fuel, 1, length c))")
     auto

declare PlaceInBucket.simps [simp del]
declare Reallocate.simps [simp del]
declare ReallocateLoop.simps [simp del]

definition Place ::
    "('k \<Rightarrow> nat) \<Rightarrow> nat \<Rightarrow> 'k \<Rightarrow> 'v \<Rightarrow> ('k, 'v) HashMap \<Rightarrow> fault + bool \<times> ('k, 'v) HashMap" where
  "Place hasher fuel k v t =
     (case GetBucket hasher k t of
        Inl f \<Rightarrow> Inl f
      | Inr bucket \<Rightarrow> PlaceInBucket hasher fuel bucket k v t)"

text \<open>The chain walk of \<^verbatim>\<open>GetFromBucket\<close>: the position of the entry found.\<close>

fun chainFind :: "('k \<Rightarrow> nat) \<Rightarrow> 'k \<Rightarrow> ('k, 'v) chain \<Rightarrow> nat option" where
  "chainFind hasher k [] = None"
| "chainFind hasher k (e # es) =
     (if m_hashCode e = hasher k \<and> m_key e = k then Some 0
      else map_option Suc (chainFind hasher k es))"

definition GetFromBucket ::
    "('k \<Rightarrow> nat) \<Rightarrow> nat \<Rightarrow> 'k \<Rightarrow> ('k, 'v) HashMap \<Rightarrow> fault + nat option" where
  "GetFromBucket hasher bucket k t =
     (if length (m_buckets t) \<le> bucket then Inl OutOfBounds
      else Inr (chainFind hasher k (m_buckets t ! bucket)))"

text \<open>The chain walk of \<^verbatim>\<open>RemoveFromBucket\<close>: unlink the entry found.\<close>

fun chainRemove :: "('k \<Rightarrow> nat) \<Rightarrow> 'k \<Rightarrow> ('k, 'v) chain \<Rightarrow> bool \<times> ('k, 'v) chain" where
  "chainRemove hasher k [] = (False, [])"
| "chainRemove hasher k (e # es) =
     (if m_hashCode e = hasher k \<and> m_key e = k then (True, es)
      else (case chainRemove hasher k es of (found, es') \<Rightarrow> (found, e # es')))"

definition RemoveFromBucket ::
    "('k \<Rightarrow> nat) \<Rightarrow> nat \<Rightarrow> 'k \<Rightarrow> ('k, 'v) HashMap \<Rightarrow> fault + bool \<times> ('k, 'v) HashMap" where
  "RemoveFromBucket hasher bucket k t =
     (if length (m_buckets t) \<le> bucket then Inl OutOfBounds
      else (case chainRemove hasher k (m_buckets t ! bucket) of
              (True, c) \<Rightarrow>
                Inr (True, t\<lparr>m_buckets := (m_buckets t)[bucket := c],
                              m_count := (if m_count t = 0 then SIZE_MAX else m_count t - 1)\<rparr>)
            | (False, c) \<Rightarrow> Inr (False, t)))"

definition Remove ::
    "('k \<Rightarrow> nat) \<Rightarrow> 'k \<Rightarrow> ('k, 'v) HashMap \<Rightarrow> fault + bool \<times> ('k, 'v) HashMap" where
  "Remove hasher k t =
     (case GetBucket hasher k t of
        Inl f \<Rightarrow> Inl f
      | Inr bucket \<Rightarrow> RemoveFromBucket hasher bucket k t)"

text \<open>
  \<^verbatim>\<open>operator[]\<close> returns a reference to the value of an entry: here the place of that
  entry, read with \<open>GetValue\<close> and written with \<open>SetValue\<close>. The argument \<open>dflt\<close> is the
  default-constructed \<^verbatim>\<open>V value;\<close>.
\<close>

type_synonym EntryRef = "nat \<times> nat"

definition subscript ::
    "('k \<Rightarrow> nat) \<Rightarrow> nat \<Rightarrow> 'v \<Rightarrow> 'k \<Rightarrow> ('k, 'v) HashMap \<Rightarrow> fault + EntryRef \<times> ('k, 'v) HashMap" where
  "subscript hasher fuel dflt k t =
     (case GetBucket hasher k t of
        Inl f \<Rightarrow> Inl f
      | Inr bucket \<Rightarrow>
          (case GetFromBucket hasher bucket k t of
             Inl f \<Rightarrow> Inl f
           | Inr (Some pos) \<Rightarrow> Inr ((bucket, pos), t)
           | Inr None \<Rightarrow>
               (case GetBucket hasher k t of
                  Inl f \<Rightarrow> Inl f
                | Inr bucket1 \<Rightarrow>
                    (case PlaceInBucket hasher fuel bucket1 k dflt t of
                       Inl f \<Rightarrow> Inl f
                     | Inr (_, t') \<Rightarrow>
                         (case GetBucket hasher k t' of
                            Inl f \<Rightarrow> Inl f
                          | Inr bucket2 \<Rightarrow>
                              (case GetFromBucket hasher bucket2 k t' of
                                 Inl f \<Rightarrow> Inl f
                               | Inr None \<Rightarrow> Inl NullDereference
                               | Inr (Some pos) \<Rightarrow> Inr ((bucket2, pos), t')))))))"

definition EntryAt :: "('k, 'v) HashMap \<Rightarrow> EntryRef \<Rightarrow> ('k, 'v) Entry" where
  "EntryAt t r = m_buckets t ! fst r ! snd r"

definition GetValue :: "('k, 'v) HashMap \<Rightarrow> EntryRef \<Rightarrow> 'v" where
  "GetValue t r = m_value (EntryAt t r)"

definition SetValue :: "EntryRef \<Rightarrow> 'v \<Rightarrow> ('k, 'v) HashMap \<Rightarrow> ('k, 'v) HashMap" where
  "SetValue r v t =
     t\<lparr>m_buckets := (m_buckets t)[fst r := (m_buckets t ! fst r)[snd r := (EntryAt t r)\<lparr>m_value := v\<rparr>] ]\<rparr>"

function ClearLoop :: "nat \<Rightarrow> ('k, 'v) HashMap \<Rightarrow> fault + ('k, 'v) HashMap" where
  "ClearLoop i t =
     (if i < m_capacity t
      then (if length (m_buckets t) \<le> i then Inl OutOfBounds
            else ClearLoop (i + 1) (t\<lparr>m_buckets := (m_buckets t)[i := [] ]\<rparr>))
      else Inr t)"
  by pat_completeness auto
termination
  by (relation "measure (\<lambda>(i, t). m_capacity t - i)") auto

declare ClearLoop.simps [simp del]

definition Clear :: "('k, 'v) HashMap \<Rightarrow> fault + ('k, 'v) HashMap" where
  "Clear t =
     (case ClearLoop 0 t of
        Inl f \<Rightarrow> Inl f
      | Inr t' \<Rightarrow> Inr (t'\<lparr>m_count := 0\<rparr>))"

subsection \<open>HashIterator and the collection views\<close>

text \<open>
  The three iterator classes share the traversal of \<^verbatim>\<open>HashIterator\<close> and differ in what
  \<^verbatim>\<open>operator*\<close> reads from the current entry; the three collection classes hold the same
  two fields. The default constructor leaves \<^verbatim>\<open>m_buckets\<close> and \<^verbatim>\<open>m_capacity\<close>
  uninitialised; they are never read on that cursor, and are empty and zero here.
\<close>

record ('k, 'v) HashIterator =
  it_buckets :: "('k, 'v) chain list"
  it_capacity :: nat
  m_bucketIndex :: nat
  m_currEntry :: "('k, 'v) chain"

definition HashIterator_default :: "('k, 'v) HashIterator" where
  "HashIterator_default = \<lparr>it_buckets = [], it_capacity = 0, m_bucketIndex = 0, m_currEntry = []\<rparr>"

text \<open>The loop \<^verbatim>\<open>while(m_currEntry == nullptr)\<close> of the constructor and of \<^verbatim>\<open>operator++\<close>.\<close>

function skipEmpty :: "('k, 'v) HashIterator \<Rightarrow> fault + ('k, 'v) HashIterator" where
  "skipEmpty it =
     (if m_currEntry it = []
      then (let it1 = it\<lparr>m_bucketIndex := m_bucketIndex it + 1\<rparr>
            in if it_capacity it1 \<le> m_bucketIndex it1 then Inr it1
               else if length (it_buckets it1) \<le> m_bucketIndex it1 then Inl OutOfBounds
               else skipEmpty (it1\<lparr>m_currEntry := it_buckets it1 ! m_bucketIndex it1\<rparr>))
      else Inr it)"
  by pat_completeness auto
termination
  by (relation "measure (\<lambda>it. it_capacity it - m_bucketIndex it)") auto

declare skipEmpty.simps [simp del]

definition HashIterator_new ::
    "('k, 'v) chain list \<Rightarrow> nat \<Rightarrow> fault + ('k, 'v) HashIterator" where
  "HashIterator_new buckets capacity =
     (if length buckets \<le> 0 then Inl OutOfBounds
      else skipEmpty \<lparr>it_buckets = buckets, it_capacity = capacity,
                      m_bucketIndex = 0, m_currEntry = buckets ! 0\<rparr>)"

definition increment :: "('k, 'v) HashIterator \<Rightarrow> fault + ('k, 'v) HashIterator" where
  "increment it =
     (case m_currEntry it of
        [] \<Rightarrow> Inl NullDereference
      | e # es \<Rightarrow> skipEmpty (it\<lparr>m_currEntry := es\<rparr>))"

definition HashIterator_eq :: "('k, 'v) HashIterator \<Rightarrow> ('k, 'v) HashIterator \<Rightarrow> bool" where
  "HashIterator_eq a b = (m_currEntry a = m_currEntry b)"

definition HashIterator_neq :: "('k, 'v) HashIterator \<Rightarrow> ('k, 'v) HashIterator \<Rightarrow> bool" where
  "HashIterator_neq a b = (\<not> HashIterator_eq a b)"

record ('k, 'v) Collection =
  c_buckets :: "('k, 'v) chain list"
  c_capacity :: nat

definition GetKeys :: "('k, 'v) HashMap \<Rightarrow> ('k, 'v) Collection" where
  "GetKeys t = \<lparr>c_buckets = m_buckets t, c_capacity = m_capacity t\<rparr>"

definition GetValues :: "('k, 'v) HashMap \<Rightarrow> ('k, 'v) Collection" where
  "GetValues t = \<lparr>c_buckets = m_buckets t, c_capacity = m_capacity t\<rparr>"

definition GetEntries :: "('k, 'v) HashMap \<Rightarrow> ('k, 'v) Collection" where
  "GetEntries t = \<lparr>c_buckets = m_buckets t, c_capacity = m_capacity t\<rparr>"

definition Collection_begin :: "('k, 'v) Collection \<Rightarrow> fault + ('k, 'v) HashIterator" where
  "Collection_begin c = HashIterator_new (c_buckets c) (c_capacity c)"

definition Collection_end :: "('k, 'v) HashIterator" where
  "Collection_end = HashIterator_default"

text \<open>
  The range-based \<^verbatim>\<open>for\<close> loop over a view: \<^verbatim>\<open>for (it = begin(); it != end(); ++it)\<close>,
  reading \<^verbatim>\<open>*it\<close> at every turn. The result lists what was read, one element for each
  step of the cursor.
\<close>

function rangeFor :: "(('k, 'v) Entry \<Rightarrow> 'a) \<Rightarrow> ('k, 'v) HashIterator \<Rightarrow> fault + 'a list" where
  "rangeFor deref it =
     (if HashIterator_neq it Collection_end
      then (case m_currEntry it of
              [] \<Rightarrow> Inl NullDereference
            | e # es \<Rightarrow>
                (case increment it of
                   Inl f \<Rightarrow> Inl f
                 | Inr it' \<Rightarrow>
                     (case rangeFor deref it' of
                        Inl f \<Rightarrow> Inl f
                      | Inr xs \<Rightarrow> Inr (deref e # xs))))
      else Inr [])"
  by pat_completeness auto
termination
proof (relation "inv_image (less_than <*lex*> less_than)
         (\<lambda>(d, it). (it_capacity it - m_bucketIndex it, length (m_currEntry it)))", goal_cases)
  case 1
  show ?case by auto
next
  case (2 deref it e es it')
  have skip: "skipEmpty a = Inr b \<Longrightarrow>
      it_capacity b = it_capacity a
      \<and> (m_currEntry a \<noteq> [] \<longrightarrow> b = a)
      \<and> (m_currEntry a = [] \<longrightarrow> m_bucketIndex a < m_bucketIndex b
            \<and> (it_capacity a \<le> m_bucketIndex a \<longrightarrow> m_currEntry b = []))"
    for a b :: "('k, 'v) HashIterator"
  proof (induction a rule: skipEmpty.induct)
    case (1 a)
    show ?case
    proof (cases "m_currEntry a = []")
      case False
      with "1.prems" show ?thesis by (simp add: skipEmpty.simps [of a])
    next
      case True
      note empty = this
      show ?thesis
      proof (cases "it_capacity a \<le> m_bucketIndex a + 1")
        case True
        with empty "1.prems" show ?thesis
          by (auto simp add: skipEmpty.simps [of a] Let_def)
      next
        case False
        with empty "1.prems" have inb: "\<not> length (it_buckets a) \<le> m_bucketIndex a + 1"
          by (auto simp add: skipEmpty.simps [of a] Let_def split: if_splits)
        let ?n = "a\<lparr>m_bucketIndex := m_bucketIndex a + 1,
                    m_currEntry := it_buckets a ! (m_bucketIndex a + 1)\<rparr>"
        from empty False inb "1.prems" have rec: "skipEmpty ?n = Inr b"
          by (simp add: skipEmpty.simps [of a] Let_def)
        from "1.IH" [OF empty refl _ _ ] empty False inb rec
        have "it_capacity b = it_capacity ?n
          \<and> (m_currEntry ?n \<noteq> [] \<longrightarrow> b = ?n)
          \<and> (m_currEntry ?n = [] \<longrightarrow> m_bucketIndex ?n < m_bucketIndex b
            \<and> (it_capacity ?n \<le> m_bucketIndex ?n \<longrightarrow> m_currEntry b = []))"
          by simp
        with empty False show ?thesis by auto
      qed
    qed
  qed
  from 2 have "skipEmpty (it\<lparr>m_currEntry := es\<rparr>) = Inr it'"
    by (simp add: increment_def)
  from skip [OF this] 2 show ?case
    by (cases "es = []") auto
qed

declare rangeFor.simps [simp del]

definition forEach :: "(('k, 'v) Entry \<Rightarrow> 'a) \<Rightarrow> ('k, 'v) Collection \<Rightarrow> fault + 'a list" where
  "forEach deref c =
     (case Collection_begin c of
        Inl f \<Rightarrow> Inl f
      | Inr it \<Rightarrow> rangeFor deref it)"

subsection \<open>Lookup, calls and the representation invariant\<close>

text \<open>
  The first statement of \<^verbatim>\<open>operator[]\<close>, \<^verbatim>\<open>GetFromBucket(GetBucket(key), key)\<close>, with the
  value of the entry it finds: a lookup that inserts nothing.
\<close>

definition lookupValue :: "('k \<Rightarrow> nat) \<Rightarrow> 'k \<Rightarrow> ('k, 'v) HashMap \<Rightarrow> fault + 'v option" where
  "lookupValue hasher k t =
     (case GetBucket hasher k t of
        Inl f \<Rightarrow> Inl f
      | Inr bucket \<Rightarrow>
          (case GetFromBucket hasher bucket k t of
             Inl f \<Rightarrow> Inl f
           | Inr None \<Rightarrow> Inr None
           | Inr (Some pos) \<Rightarrow> Inr (Some (GetValue t (bucket, pos)))))"

datatype ('k, 'v) call = CallPlace 'k 'v | CallRemove 'k | CallClear

fun perform ::
    "('k \<Rightarrow> nat) \<Rightarrow> nat \<Rightarrow> ('k, 'v) call \<Rightarrow> ('k, 'v) HashMap \<Rightarrow> fault + ('k, 'v) HashMap" where
  "perform hasher fuel (CallPlace k v) t =
     (case Place hasher fuel k v t of Inl f \<Rightarrow> Inl f | Inr (_, t') \<Rightarrow> Inr t')"
| "perform hasher fuel (CallRemove k) t =
     (case Remove hasher k t of Inl f \<Rightarrow> Inl f | Inr (_, t') \<Rightarrow> Inr t')"
| "perform hasher fuel CallClear t = Clear t"

fun performAll ::
    "('k \<Rightarrow> nat) \<Rightarrow> nat \<Rightarrow> ('k, 'v) call list \<Rightarrow> ('k, 'v) HashMap \<Rightarrow> fault + ('k, 'v) HashMap" where
  "performAll hasher fuel [] t = Inr t"
| "performAll hasher fuel (c # cs) t =
     (case perform hasher fuel c t of
        Inl f \<Rightarrow> Inl f
      | Inr t' \<Rightarrow> performAll hasher fuel cs t')"

text \<open>The keys that a sequence of calls has inserted and not removed or cleared since.\<close>

fun track :: "'k set \<Rightarrow> ('k, 'v) call \<Rightarrow> 'k set" where
  "track S (CallPlace k v) = insert k S"
| "track S (CallRemove k) = S - {k}"
| "track S CallClear = {}"

definition liveKeys :: "('k, 'v) call list \<Rightarrow> 'k set" where
  "liveKeys cs = foldl track {} cs"

definition entries :: "('k, 'v) HashMap \<Rightarrow> ('k, 'v) Entry list" where
  "entries t = concat (m_buckets t)"

definition keys :: "('k, 'v) HashMap \<Rightarrow> 'k list" where
  "keys t = map m_key (entries t)"

text \<open>
  The invariant of the data model: every entry caches the hash of its key and lies in the
  bucket that its hash selects, no chain holds a key twice, the array has \<open>m_capacity\<close>
  slots, \<open>m_count\<close> is the number of entries and \<open>m_maxCount\<close> the threshold of the
  current capacity.
\<close>

definition chain_ok :: "('k \<Rightarrow> nat) \<Rightarrow> nat \<Rightarrow> nat \<Rightarrow> ('k, 'v) chain \<Rightarrow> bool" where
  "chain_ok hasher capacity i c =
     (list_all (\<lambda>e. m_hashCode e = hasher (m_key e) \<and> hasher (m_key e) mod capacity = i) c
      \<and> distinct (map m_key c))"

fun buckets_ok :: "('k \<Rightarrow> nat) \<Rightarrow> nat \<Rightarrow> nat \<Rightarrow> ('k, 'v) chain list \<Rightarrow> bool" where
  "buckets_ok hasher capacity i [] = True"
| "buckets_ok hasher capacity i (c # cs) =
     (chain_ok hasher capacity i c \<and> buckets_ok hasher capacity (Suc i) cs)"

definition HashMap_inv :: "('k \<Rightarrow> nat) \<Rightarrow> ('k, 'v) HashMap \<Rightarrow> bool" where
  "HashMap_inv hasher t =
     (0 < m_capacity t
      \<and> length (m_buckets t) = m_capacity t
      \<and> m_count t = length (entries t)
      \<and> buckets_ok hasher (m_capacity t) 0 (m_buckets t)
      \<and> m_maxCount t = threshold (m_loadFactor t) (m_capacity t))"

text \<open>Every entry of a chain caches the hash of its key.\<close>

definition hashed :: "('k \<Rightarrow> nat) \<Rightarrow> ('k, 'v) chain \<Rightarrow> bool" where
  "hashed hasher c = (\<forall>e \<in> set c. m_hashCode e = hasher (m_key e))"

definition remaining :: "('k, 'v) HashIterator \<Rightarrow> ('k, 'v) chain" where
  "remaining it = m_currEntry it @ concat (drop (Suc (m_bucketIndex it)) (it_buckets it))"

text \<open>A table with a chain of two entries, for concrete instances: keys 1 and 5 share
  bucket 1 of 4 under the identity hash.\<close>

definition demo_table :: "(nat, string) HashMap" where
  "demo_table =
     \<lparr>m_buckets = [ [],
                   [\<lparr>m_hashCode = 1, m_key = 1, m_value = ''A''\<rparr>,
                    \<lparr>m_hashCode = 5, m_key = 5, m_value = ''E''\<rparr>],
                   [\<lparr>m_hashCode = 2, m_key = 2, m_value = ''B''\<rparr>],
                   [] ],
      m_capacity = 4, m_count = 3, m_loadFactor = 3 / 4, m_maxCount = 3\<rparr>"

text \<open>A cursor on the last entry of bucket 1 of \<open>demo_table\<close>.\<close>

definition demo_cursor :: "(nat, string) HashIterator" where
  "demo_cursor =
     \<lparr>it_buckets = m_buckets demo_table, it_capacity = 4, m_bucketIndex = 1,
      m_currEntry = [\<lparr>m_hashCode = 5, m_key = 5, m_value = ''E''\<rparr>]\<rparr>"

text \<open>The capacity after a call is the capacity before it, or at least twice that.\<close>

definition grows :: "('k, 'v) HashMap \<Rightarrow> ('k, 'v) HashMap \<Rightarrow> bool" where
  "grows t t' = (m_capacity t' = m_capacity t \<or> 2 * m_capacity t \<le> m_capacity t')"

definition overwrite :: "'k \<Rightarrow> 'v \<Rightarrow> ('k, 'v) Entry \<Rightarrow> ('k, 'v) Entry" where
  "overwrite k v e = (if m_key e = k then e\<lparr>m_value := v\<rparr> else e)"

text \<open>A table from which growth completes: the count is within the threshold, and the
  single-precision product of load factor and capacity is at least one half, so that
  doubling the capacity raises the threshold.\<close>

definition growth_safe :: "('k, 'v) HashMap \<Rightarrow> bool" where
  "growth_safe t =
     (m_count t \<le> m_maxCount t \<and> 1 \<le> 2 * loadProduct (m_loadFactor t) (m_capacity t))"

text \<open>A sequence of calls that crosses the threshold of a table of capacity 2, places a key
  twice, removes, clears and inserts again.\<close>

definition demo_calls :: "(nat, string) call list" where
  "demo_calls =
     [CallPlace 1 ''A'', CallPlace 2 ''B'', CallPlace 3 ''C'', CallPlace 1 ''D'',
      CallRemove 2, CallRemove 9, CallClear, CallPlace 4 ''E'', CallPlace 5 ''F'',
      CallRemove 4, CallPlace 6 ''G'']"

text \<open>The statement \<^verbatim>\<open>map[key] = value\<close>: \<^verbatim>\<open>operator[]\<close>, then a write through the
  reference it returns.\<close>

definition assign ::
    "('k \<Rightarrow> nat) \<Rightarrow> nat \<Rightarrow> 'v \<Rightarrow> 'k \<Rightarrow> 'v \<Rightarrow> ('k, 'v) HashMap \<Rightarrow> fault + ('k, 'v) HashMap" where
  "assign hasher fuel dflt k v t =
     (case subscript hasher fuel dflt k t of
        Inl f \<Rightarrow> Inl f
      | Inr (r, t') \<Rightarrow> Inr (SetValue r v t'))"

text \<open>The statements of \<^verbatim>\<open>main\<close> up to the first loop: six calls of \<^verbatim>\<open>Place\<close> and
  thirteen assignments through \<^verbatim>\<open>operator[]\<close> on a table of capacity 16 and load factor
  0.75, with the keys hashed to themselves.\<close>

fun placeAll :: "(nat \<times> string) list \<Rightarrow> (nat, string) HashMap \<Rightarrow> fault + (nat, string) HashMap" where
  "placeAll [] t = Inr t"
| "placeAll ((k, v) # kvs) t =
     (case Place (\<lambda>k. k) 1 k v t of Inl f \<Rightarrow> Inl f | Inr (_, t') \<Rightarrow> placeAll kvs t')"

fun assignAll :: "(nat \<times> string) list \<Rightarrow> (nat, string) HashMap \<Rightarrow> fault + (nat, string) HashMap" where
  "assignAll [] t = Inr t"
| "assignAll ((k, v) # kvs) t =
     (case assign (\<lambda>k. k) 1 [] k v t of Inl f \<Rightarrow> Inl f | Inr t' \<Rightarrow> assignAll kvs t')"

definition main_table :: "fault + (nat, string) HashMap" where
  "main_table =
     (case placeAll [(1, ''A''), (2, ''B''), (3, ''C''), (4, ''D''), (5, ''E''), (6, ''F'')]
             (HashMap_new 16 (3 / 4)) of
        Inl f \<Rightarrow> Inl f
      | Inr t \<Rightarrow>
          assignAll [(7, ''G''), (8, ''H''), (9, ''I''), (10, ''J''), (11, ''K''), (12, ''L''),
                     (13, ''M''), (14, ''N''), (15, ''O''), (16, ''P''), (17, ''Q''),
                     (18, ''R''), (19, ''S'')] t)"

text \<open>
  The table \<^verbatim>\<open>HashMap(10, 0.7f)\<close> after the keys 1 to 6 were placed, and the table
  \<^verbatim>\<open>HashMap(5, 0.7f)\<close> after the keys 1 to 3 were placed, with the keys hashed to
  themselves. The value of \<^verbatim>\<open>0.7f\<close> is \<open>11744051 / 2 ^ 24\<close>.
\<close>

definition crowded_table :: "(nat, string) HashMap" where
  "crowded_table =
     \<lparr>m_buckets = [ [],
                   [\<lparr>m_hashCode = 1, m_key = 1, m_value = ''A''\<rparr>],
                   [\<lparr>m_hashCode = 2, m_key = 2, m_value = ''B''\<rparr>],
                   [\<lparr>m_hashCode = 3, m_key = 3, m_value = ''C''\<rparr>],
                   [\<lparr>m_hashCode = 4, m_key = 4, m_value = ''D''\<rparr>],
                   [\<lparr>m_hashCode = 5, m_key = 5, m_value = ''E''\<rparr>],
                   [\<lparr>m_hashCode = 6, m_key = 6, m_value = ''F''\<rparr>],
                   [], [], [] ],
      m_capacity = 10, m_count = 6, m_loadFactor = 11744051 / 16777216, m_maxCount = 7\<rparr>"

definition full_table :: "(nat, string) HashMap" where
  "full_table =
     \<lparr>m_buckets = [ [],
                   [\<lparr>m_hashCode = 1, m_key = 1, m_value = ''A''\<rparr>],
                   [\<lparr>m_hashCode = 2, m_key = 2, m_value = ''B''\<rparr>],
                   [\<lparr>m_hashCode = 3, m_key = 3, m_value = ''C''\<rparr>],
                   [] ],
      m_capacity = 5, m_count = 3, m_loadFactor = 11744051 / 16777216, m_maxCount = 3\<rparr>"

section \<open>Properties\<close>

subsection \<open>Chains\<close>

lemma hashed_Cons [simp]:
  "hashed hasher (e # es) = (m_hashCode e = hasher (m_key e) \<and> hashed hasher es)"
  by (simp add: hashed_def)

lemma hashed_Nil [simp]: "hashed hasher []"
  by (simp add: hashed_def)

lemma chainFind_absent:
  "hashed hasher c \<Longrightarrow> k \<notin> m_key ` set c \<Longrightarrow> chainFind hasher k c = None"
  by (induction c) auto

lemma chainFind_present:
  "hashed hasher c \<Longrightarrow> k \<in> m_key ` set c \<Longrightarrow>
     \<exists>pos. chainFind hasher k c = Some pos \<and> pos < length c \<and> m_key (c ! pos) = k"
  by (induction c) auto


lemma chainPlace_absent:
  "k \<notin> m_key ` set c \<Longrightarrow> chainPlace hasher k v c = (False, c @ [Entry_new hasher k v])"
  by (induction c) auto

lemma chainPlace_present:
  "hashed hasher c \<Longrightarrow> distinct (map m_key c) \<Longrightarrow> k \<in> m_key ` set c \<Longrightarrow>
     chainPlace hasher k v c = (True, map (\<lambda>e. if m_key e = k then e\<lparr>m_value := v\<rparr> else e) c)"
proof (induction c)
  case Nil
  then show ?case by simp
next
  case (Cons e es)
  show ?case
  proof (cases "m_key e = k")
    case True
    with Cons.prems have "k \<notin> m_key ` set es" by simp
    then have "\<forall>x \<in> set es. m_key x \<noteq> k" by blast
    then have "map (\<lambda>e. if m_key e = k then e\<lparr>m_value := v\<rparr> else e) es = es"
      by (simp add: map_idI)
    with True Cons.prems show ?thesis by simp
  next
    case False
    with Cons show ?thesis by auto
  qed
qed

lemma chainRemove_absent:
  "k \<notin> m_key ` set c \<Longrightarrow> chainRemove hasher k c = (False, c)"
  by (induction c) auto

lemma chainRemove_present:
  "hashed hasher c \<Longrightarrow> distinct (map m_key c) \<Longrightarrow> k \<in> m_key ` set c \<Longrightarrow>
     chainRemove hasher k c = (True, filter (\<lambda>e. m_key e \<noteq> k) c)"
proof (induction c)
  case Nil
  then show ?case by simp
next
  case (Cons e es)
  show ?case
  proof (cases "m_key e = k")
    case True
    with Cons.prems have "k \<notin> m_key ` set es" by simp
    then have "\<forall>x \<in> set es. m_key x \<noteq> k" by blast
    then have "filter (\<lambda>e. m_key e \<noteq> k) es = es"
      by simp
    with True Cons.prems show ?thesis by simp
  next
    case False
    with Cons show ?thesis by auto
  qed
qed

subsection \<open>The invariant\<close>

lemma chain_ok_hashed: "chain_ok hasher cap i c \<Longrightarrow> hashed hasher c"
  by (simp add: chain_ok_def hashed_def list_all_iff)

lemma buckets_ok_nth:
  "buckets_ok hasher cap i bs = (\<forall>j < length bs. chain_ok hasher cap (i + j) (bs ! j))"
proof (induction bs arbitrary: i)
  case Nil
  show ?case by simp
next
  case (Cons c cs)
  show ?case
    by (simp add: Cons.IH All_less_Suc2)
qed

lemma buckets_ok_lower:
  "buckets_ok hasher cap i bs \<Longrightarrow> e \<in> set (concat bs) \<Longrightarrow> i \<le> hasher (m_key e) mod cap"
proof (induction bs arbitrary: i)
  case Nil
  then show ?case by simp
next
  case (Cons c cs)
  from Cons.prems have "e \<in> set c \<or> e \<in> set (concat cs)" by simp
  then show ?case
  proof
    assume "e \<in> set c"
    with Cons.prems show ?thesis by (simp add: chain_ok_def list_all_iff)
  next
    assume "e \<in> set (concat cs)"
    with Cons.IH [of "Suc i"] Cons.prems show ?thesis by simp
  qed
qed

lemma buckets_ok_distinct:
  "buckets_ok hasher cap i bs \<Longrightarrow> distinct (map m_key (concat bs))"
proof (induction bs arbitrary: i)
  case Nil
  show ?case by simp
next
  case (Cons c cs)
  have "m_key x \<noteq> m_key y" if "x \<in> set c" "y \<in> set (concat cs)" for x y
  proof
    assume eq: "m_key x = m_key y"
    from Cons.prems that(1) have "hasher (m_key x) mod cap = i"
      by (simp add: chain_ok_def list_all_iff)
    moreover from Cons.prems that(2) have "Suc i \<le> hasher (m_key y) mod cap"
      using buckets_ok_lower [of hasher cap "Suc i" cs y] by simp
    ultimately show False using eq by simp
  qed
  with Cons show ?case
    by (auto simp add: chain_ok_def)
qed

lemma inv_distinct_keys: "HashMap_inv hasher t \<Longrightarrow> distinct (keys t)"
  by (auto simp add: HashMap_inv_def keys_def entries_def dest: buckets_ok_distinct)

lemma inv_chain:
  "HashMap_inv hasher t \<Longrightarrow> i < m_capacity t \<Longrightarrow> chain_ok hasher (m_capacity t) i (m_buckets t ! i)"
  by (simp add: HashMap_inv_def buckets_ok_nth)

lemma inv_entry:
  assumes "HashMap_inv hasher t" and "e \<in> set (entries t)"
  shows "m_hashCode e = hasher (m_key e)"
    and "e \<in> set (m_buckets t ! (hasher (m_key e) mod m_capacity t))"
proof -
  from assms(2) obtain c where c: "c \<in> set (m_buckets t)" "e \<in> set c"
    by (auto simp add: entries_def)
  then obtain i where i: "i < length (m_buckets t)" "m_buckets t ! i = c"
    by (auto simp add: in_set_conv_nth)
  with assms(1) have ok: "chain_ok hasher (m_capacity t) i c"
    by (auto simp add: HashMap_inv_def buckets_ok_nth)
  with c show "m_hashCode e = hasher (m_key e)"
    by (simp add: chain_ok_def list_all_iff)
  from ok c have "hasher (m_key e) mod m_capacity t = i"
    by (simp add: chain_ok_def list_all_iff)
  with i c show "e \<in> set (m_buckets t ! (hasher (m_key e) mod m_capacity t))"
    by simp
qed

lemma inv_key_bucket:
  assumes "HashMap_inv hasher t"
  shows "(k \<in> set (keys t)) = (k \<in> m_key ` set (m_buckets t ! (hasher k mod m_capacity t)))"
proof
  assume "k \<in> set (keys t)"
  then obtain e where "e \<in> set (entries t)" "m_key e = k"
    by (auto simp add: keys_def)
  with inv_entry(2) [OF assms, of e] show "k \<in> m_key ` set (m_buckets t ! (hasher k mod m_capacity t))"
    by auto
next
  assume "k \<in> m_key ` set (m_buckets t ! (hasher k mod m_capacity t))"
  moreover from assms have "hasher k mod m_capacity t < length (m_buckets t)"
    by (simp add: HashMap_inv_def)
  ultimately show "k \<in> set (keys t)"
    using nth_mem [of "hasher k mod m_capacity t" "m_buckets t"]
    by (fastforce simp add: keys_def entries_def)
qed

subsection \<open>Removal\<close>

lemma filter_key_length:
  "distinct (map m_key c) \<Longrightarrow> k \<in> m_key ` set c \<Longrightarrow>
     length (filter (\<lambda>e. m_key e \<noteq> k) c) + 1 = length c"
proof (induction c)
  case Nil
  then show ?case by simp
next
  case (Cons e es)
  show ?case
  proof (cases "m_key e = k")
    case True
    with Cons.prems have "k \<notin> m_key ` set es" by simp
    then have "\<forall>x \<in> set es. m_key x \<noteq> k" by blast
    then have "filter (\<lambda>e. m_key e \<noteq> k) es = es" by simp
    with True show ?thesis by simp
  next
    case False
    with Cons show ?thesis by auto
  qed
qed

lemma inv_other_bucket:
  assumes "HashMap_inv hasher t" and "j < m_capacity t" and "j \<noteq> hasher k mod m_capacity t"
    and "e \<in> set (m_buckets t ! j)"
  shows "m_key e \<noteq> k"
proof
  assume "m_key e = k"
  moreover from inv_chain [OF assms(1,2)] assms(4)
  have "hasher (m_key e) mod m_capacity t = j"
    by (simp add: chain_ok_def list_all_iff)
  ultimately show False using assms(3) by simp
qed

lemma update_bucket_filter:
  assumes "HashMap_inv hasher t"
  shows "(m_buckets t)[hasher k mod m_capacity t :=
            filter (\<lambda>e. m_key e \<noteq> k) (m_buckets t ! (hasher k mod m_capacity t))]
         = map (filter (\<lambda>e. m_key e \<noteq> k)) (m_buckets t)"
proof (rule nth_equalityI)
  show "length ((m_buckets t)[hasher k mod m_capacity t :=
            filter (\<lambda>e. m_key e \<noteq> k) (m_buckets t ! (hasher k mod m_capacity t))])
        = length (map (filter (\<lambda>e. m_key e \<noteq> k)) (m_buckets t))"
    by simp
next
  fix j
  assume "j < length ((m_buckets t)[hasher k mod m_capacity t :=
            filter (\<lambda>e. m_key e \<noteq> k) (m_buckets t ! (hasher k mod m_capacity t))])"
  with assms have j: "j < m_capacity t" "j < length (m_buckets t)"
    by (simp_all add: HashMap_inv_def)
  show "(m_buckets t)[hasher k mod m_capacity t :=
            filter (\<lambda>e. m_key e \<noteq> k) (m_buckets t ! (hasher k mod m_capacity t))] ! j
        = map (filter (\<lambda>e. m_key e \<noteq> k)) (m_buckets t) ! j"
  proof (cases "j = hasher k mod m_capacity t")
    case True
    with j show ?thesis by simp
  next
    case False
    with inv_other_bucket [OF assms j(1)] have "\<forall>e \<in> set (m_buckets t ! j). m_key e \<noteq> k"
      by blast
    then have "filter (\<lambda>e. m_key e \<noteq> k) (m_buckets t ! j) = m_buckets t ! j"
      by simp
    with False j show ?thesis by simp
  qed
qed

lemma Remove_absent:
  assumes "HashMap_inv hasher t" and "k \<notin> set (keys t)"
  shows "Remove hasher k t = Inr (False, t)"
proof -
  from assms(1) have cap: "0 < m_capacity t" "length (m_buckets t) = m_capacity t"
    by (simp_all add: HashMap_inv_def)
  from assms have "k \<notin> m_key ` set (m_buckets t ! (hasher k mod m_capacity t))"
    by (simp add: inv_key_bucket)
  then have "chainRemove hasher k (m_buckets t ! (hasher k mod m_capacity t))
             = (False, m_buckets t ! (hasher k mod m_capacity t))"
    by (rule chainRemove_absent)
  moreover from cap have "\<not> m_capacity t \<le> hasher k mod m_capacity t"
    by (simp add: not_le)
  ultimately show ?thesis
    using cap by (simp add: Remove_def GetBucket_def RemoveFromBucket_def)
qed

lemma Remove_present:
  assumes "HashMap_inv hasher t" and "k \<in> set (keys t)"
  shows "Remove hasher k t =
           Inr (True, t\<lparr>m_buckets := map (filter (\<lambda>e. m_key e \<noteq> k)) (m_buckets t),
                         m_count := m_count t - 1\<rparr>)"
    and "0 < m_count t"
proof -
  let ?i = "hasher k mod m_capacity t"
  from assms(1) have cap: "0 < m_capacity t" "length (m_buckets t) = m_capacity t"
    by (simp_all add: HashMap_inv_def)
  then have i: "?i < m_capacity t" by simp
  from assms have pres: "k \<in> m_key ` set (m_buckets t ! ?i)"
    by (simp add: inv_key_bucket)
  from inv_chain [OF assms(1) i] have ok: "chain_ok hasher (m_capacity t) ?i (m_buckets t ! ?i)" .
  have "chainRemove hasher k (m_buckets t ! ?i)
             = (True, filter (\<lambda>e. m_key e \<noteq> k) (m_buckets t ! ?i))"
  proof (rule chainRemove_present)
    show "hashed hasher (m_buckets t ! ?i)" using ok by (rule chain_ok_hashed)
    show "distinct (map m_key (m_buckets t ! ?i))" using ok by (simp add: chain_ok_def)
    show "k \<in> m_key ` set (m_buckets t ! ?i)" by (rule pres)
  qed
  moreover from i have "\<not> m_capacity t \<le> ?i"
    by (simp add: not_le)
  moreover from assms(2) have "entries t \<noteq> []"
    by (auto simp add: keys_def)
  with assms(1) show pos: "0 < m_count t"
    by (simp add: HashMap_inv_def)
  ultimately show "Remove hasher k t =
           Inr (True, t\<lparr>m_buckets := map (filter (\<lambda>e. m_key e \<noteq> k)) (m_buckets t),
                         m_count := m_count t - 1\<rparr>)"
    using cap update_bucket_filter [OF assms(1), of k]
    by (simp add: Remove_def GetBucket_def RemoveFromBucket_def)
qed

lemma entries_filter:
  "entries (t\<lparr>m_buckets := map (filter P) (m_buckets t), m_count := n\<rparr>) = filter P (entries t)"
  by (simp add: entries_def filter_concat)

lemma buckets_ok_filter:
  "buckets_ok hasher cap i bs \<Longrightarrow> buckets_ok hasher cap i (map (filter P) bs)"
  by (induction bs arbitrary: i) (auto simp add: chain_ok_def list_all_iff distinct_map_filter)

lemma Remove_inv:
  assumes "HashMap_inv hasher t" and "Remove hasher k t = Inr (found, t')"
  shows "HashMap_inv hasher t'"
proof (cases "k \<in> set (keys t)")
  case False
  with assms Remove_absent [OF assms(1) False] show ?thesis by simp
next
  case True
  from Remove_present(1) [OF assms(1) True] assms(2)
  have t': "t' = t\<lparr>m_buckets := map (filter (\<lambda>e. m_key e \<noteq> k)) (m_buckets t),
                     m_count := m_count t - 1\<rparr>"
    by simp
  from True have "k \<in> m_key ` set (entries t)" by (simp add: keys_def)
  with inv_distinct_keys [OF assms(1)]
  have "length (filter (\<lambda>e. m_key e \<noteq> k) (entries t)) + 1 = length (entries t)"
    by (intro filter_key_length) (simp_all add: keys_def)
  with assms(1) show ?thesis
    unfolding t' HashMap_inv_def entries_filter
    by (simp add: buckets_ok_filter)
qed

text \<open>
  C5. \<^verbatim>\<open>Remove(k)\<close> on a table that satisfies the invariant: for an absent key it returns
  false and the table is the same; for a present key it returns true, the entries are the
  former ones without the one entry of that key, in the same buckets and the same order,
  \<open>m_count\<close> is one less, and capacity, threshold and load factor are the same.
\<close>

theorem Remove_correct:
  assumes "HashMap_inv hasher t"
  shows "(k \<notin> set (keys t) \<longrightarrow> Remove hasher k t = Inr (False, t))
       \<and> (k \<in> set (keys t) \<longrightarrow>
            (\<exists>t'. Remove hasher k t = Inr (True, t')
               \<and> m_buckets t' = map (filter (\<lambda>e. m_key e \<noteq> k)) (m_buckets t)
               \<and> length (entries t') + 1 = length (entries t)
               \<and> m_count t' + 1 = m_count t
               \<and> m_capacity t' = m_capacity t
               \<and> length (m_buckets t') = length (m_buckets t)
               \<and> m_maxCount t' = m_maxCount t
               \<and> m_loadFactor t' = m_loadFactor t))"
proof (intro conjI impI)
  assume "k \<notin> set (keys t)"
  with assms show "Remove hasher k t = Inr (False, t)" by (rule Remove_absent)
next
  assume pres: "k \<in> set (keys t)"
  let ?t' = "t\<lparr>m_buckets := map (filter (\<lambda>e. m_key e \<noteq> k)) (m_buckets t),
                 m_count := m_count t - 1\<rparr>"
  from pres have "k \<in> m_key ` set (entries t)" by (simp add: keys_def)
  with inv_distinct_keys [OF assms]
  have len: "length (filter (\<lambda>e. m_key e \<noteq> k) (entries t)) + 1 = length (entries t)"
    by (intro filter_key_length) (simp_all add: keys_def)
  have "Remove hasher k t = Inr (True, ?t')"
    using assms pres by (rule Remove_present(1))
  moreover have "length (entries ?t') + 1 = length (entries t)"
    using len by (simp only: entries_filter)
  moreover have "m_count ?t' + 1 = m_count t"
    using Remove_present(2) [OF assms pres] by simp
  ultimately show "\<exists>t'. Remove hasher k t = Inr (True, t')
               \<and> m_buckets t' = map (filter (\<lambda>e. m_key e \<noteq> k)) (m_buckets t)
               \<and> length (entries t') + 1 = length (entries t)
               \<and> m_count t' + 1 = m_count t
               \<and> m_capacity t' = m_capacity t
               \<and> length (m_buckets t') = length (m_buckets t)
               \<and> m_maxCount t' = m_maxCount t
               \<and> m_loadFactor t' = m_loadFactor t"
    by (intro exI [of _ ?t']) simp
qed

subsection \<open>Clear\<close>

lemma ClearLoop_result:
  "length (m_buckets t) = m_capacity t \<Longrightarrow> i \<le> m_capacity t \<Longrightarrow>
     ClearLoop i t = Inr (t\<lparr>m_buckets := take i (m_buckets t) @ replicate (m_capacity t - i) []\<rparr>)"
proof (induction i t rule: ClearLoop.induct)
  case (1 i t)
  show ?case
  proof (cases "i < m_capacity t")
    case False
    with "1.prems" show ?thesis
      by (subst ClearLoop.simps) simp
  next
    case True
    let ?t = "t\<lparr>m_buckets := (m_buckets t)[i := [] ]\<rparr>"
    from True "1.prems" have nb: "\<not> length (m_buckets t) \<le> i" by simp
    from "1.IH" [OF True nb] True "1.prems"
    have "ClearLoop (i + 1) ?t =
            Inr (?t\<lparr>m_buckets := take (i + 1) (m_buckets ?t) @ replicate (m_capacity ?t - (i + 1)) []\<rparr>)"
      by simp
    moreover from True "1.prems"
    have "take (i + 1) ((m_buckets t)[i := [] ]) @ replicate (m_capacity t - (i + 1)) []
          = take i (m_buckets t) @ replicate (m_capacity t - i) []"
      by (simp add: take_Suc_conv_app_nth replicate_app_Cons_same Suc_diff_Suc
          flip: replicate_Suc)
    ultimately show ?thesis
      using True nb by (simp add: ClearLoop.simps [of i t])
  qed
qed

lemma Clear_result:
  "length (m_buckets t) = m_capacity t \<Longrightarrow>
     Clear t = Inr (t\<lparr>m_buckets := replicate (m_capacity t) [], m_count := 0\<rparr>)"
  by (simp add: Clear_def ClearLoop_result)

lemma Clear_new:
  "HashMap_inv hasher t \<Longrightarrow> Clear t = Inr (HashMap_new (m_capacity t) (m_loadFactor t))"
  by (simp add: Clear_result HashMap_inv_def HashMap_new_def)

lemma buckets_ok_replicate: "buckets_ok hasher cap i (replicate n [])"
  by (induction n arbitrary: i) (simp_all add: chain_ok_def)

lemma inv_new: "0 < cap \<Longrightarrow> HashMap_inv hasher (HashMap_new cap lf)"
  by (simp add: HashMap_inv_def HashMap_new_def entries_def buckets_ok_replicate)

subsection \<open>Cursors\<close>

lemma skipEmpty_nonempty: "m_currEntry it \<noteq> [] \<Longrightarrow> skipEmpty it = Inr it"
  by (simp add: skipEmpty.simps [of it])

lemma skipEmpty_result:
  "it_capacity a = length (it_buckets a) \<Longrightarrow>
     \<exists>b. skipEmpty a = Inr b
        \<and> it_buckets b = it_buckets a \<and> it_capacity b = it_capacity a
        \<and> remaining b = remaining a
        \<and> (m_currEntry b = [] \<longrightarrow> remaining b = [])"
proof (induction a rule: skipEmpty.induct)
  case (1 a)
  show ?case
  proof (cases "m_currEntry a = []")
    case False
    then show ?thesis by (simp add: skipEmpty_nonempty)
  next
    case True
    note empty = this
    show ?thesis
    proof (cases "it_capacity a \<le> m_bucketIndex a + 1")
      case True
      with empty "1.prems" show ?thesis
        by (simp add: skipEmpty.simps [of a] Let_def remaining_def)
    next
      case False
      with "1.prems" have inb: "\<not> length (it_buckets a) \<le> m_bucketIndex a + 1" by simp
      let ?n = "a\<lparr>m_bucketIndex := m_bucketIndex a + 1,
                  m_currEntry := it_buckets a ! (m_bucketIndex a + 1)\<rparr>"
      from empty False inb have unfold: "skipEmpty a = skipEmpty ?n"
        by (simp add: skipEmpty.simps [of a] Let_def)
      from "1.IH" [OF empty refl _ _] False inb "1.prems"
      obtain b where b: "skipEmpty ?n = Inr b" "it_buckets b = it_buckets ?n"
          "it_capacity b = it_capacity ?n" "remaining b = remaining ?n"
          "m_currEntry b = [] \<longrightarrow> remaining b = []"
        by auto
      from inb empty have "remaining ?n = remaining a"
        by (simp add: remaining_def Cons_nth_drop_Suc [symmetric])
      with b unfold show ?thesis by simp
    qed
  qed
qed

lemma rangeFor_remaining:
  "it_capacity it = length (it_buckets it) \<Longrightarrow> (m_currEntry it = [] \<longrightarrow> remaining it = []) \<Longrightarrow>
     rangeFor deref it = Inr (map deref (remaining it))"
proof (induction deref it rule: rangeFor.induct)
  case (1 deref it)
  show ?case
  proof (cases "m_currEntry it")
    case Nil
    with "1.prems" show ?thesis
      by (simp add: rangeFor.simps [of deref it] HashIterator_neq_def HashIterator_eq_def
          Collection_end_def HashIterator_default_def)
  next
    case (Cons e es)
    then have neq: "HashIterator_neq it Collection_end"
      by (simp add: HashIterator_neq_def HashIterator_eq_def Collection_end_def
          HashIterator_default_def)
    let ?a = "it\<lparr>m_currEntry := es\<rparr>"
    from "1.prems" have "it_capacity ?a = length (it_buckets ?a)" by simp
    from skipEmpty_result [OF this]
    obtain b where b: "skipEmpty ?a = Inr b" "it_buckets b = it_buckets ?a"
        "it_capacity b = it_capacity ?a" "remaining b = remaining ?a"
        "m_currEntry b = [] \<longrightarrow> remaining b = []"
      by auto
    from Cons b have inc: "increment it = Inr b"
      by (simp add: increment_def)
    from b "1.prems" have "it_capacity b = length (it_buckets b)" by simp
    from "1.IH" [OF neq Cons inc this b(5)]
    have "rangeFor deref b = Inr (map deref (remaining b))" .
    moreover from Cons b have "remaining it = e # remaining b"
      by (simp add: remaining_def)
    ultimately show ?thesis
      using neq Cons inc by (simp add: rangeFor.simps [of deref it])
  qed
qed

lemma forEach_buckets:
  assumes "0 < length (c_buckets c)" and "c_capacity c = length (c_buckets c)"
  shows "forEach deref c = Inr (map deref (concat (c_buckets c)))"
proof -
  let ?a = "\<lparr>it_buckets = c_buckets c, it_capacity = c_capacity c,
             m_bucketIndex = 0, m_currEntry = c_buckets c ! 0\<rparr>"
  from assms have "it_capacity ?a = length (it_buckets ?a)" by simp
  from skipEmpty_result [OF this]
  obtain b where b: "skipEmpty ?a = Inr b" "it_buckets b = it_buckets ?a"
      "it_capacity b = it_capacity ?a" "remaining b = remaining ?a"
      "m_currEntry b = [] \<longrightarrow> remaining b = []"
    by auto
  from assms(1) have "remaining ?a = concat (c_buckets c)"
    by (cases "c_buckets c") (simp_all add: remaining_def)
  moreover from b assms have "rangeFor deref b = Inr (map deref (remaining b))"
    by (intro rangeFor_remaining) simp_all
  ultimately show ?thesis
    using assms b by (simp add: forEach_def Collection_begin_def HashIterator_new_def)
qed

lemma forEach_table:
  assumes "HashMap_inv hasher t"
  shows "forEach deref (GetKeys t) = Inr (map deref (entries t))"
    and "forEach deref (GetValues t) = Inr (map deref (entries t))"
    and "forEach deref (GetEntries t) = Inr (map deref (entries t))"
  using assms
  by (simp_all add: forEach_buckets HashMap_inv_def GetKeys_def GetValues_def GetEntries_def
      entries_def)

lemma skipEmpty_scan:
  "it_capacity a = length (it_buckets a) \<Longrightarrow> m_currEntry a = [] \<Longrightarrow>
     (\<exists>j. m_bucketIndex a < j \<and> j < it_capacity a \<and> it_buckets a ! j \<noteq> []
          \<and> (\<forall>i. m_bucketIndex a < i \<and> i < j \<longrightarrow> it_buckets a ! i = [])
          \<and> skipEmpty a = Inr (a\<lparr>m_bucketIndex := j, m_currEntry := it_buckets a ! j\<rparr>))
     \<or> ((\<forall>i. m_bucketIndex a < i \<and> i < it_capacity a \<longrightarrow> it_buckets a ! i = [])
          \<and> (\<exists>j. it_capacity a \<le> j \<and> skipEmpty a = Inr (a\<lparr>m_bucketIndex := j\<rparr>)))"
proof (induction a rule: skipEmpty.induct)
  case (1 a)
  note empty = \<open>m_currEntry a = []\<close>
  show ?case
  proof (cases "it_capacity a \<le> m_bucketIndex a + 1")
    case True
    with empty have "skipEmpty a = Inr (a\<lparr>m_bucketIndex := m_bucketIndex a + 1\<rparr>)"
      by (simp add: skipEmpty.simps [of a] Let_def)
    with True show ?thesis by auto
  next
    case False
    with "1.prems" have inb: "\<not> length (it_buckets a) \<le> m_bucketIndex a + 1" by simp
    let ?n = "a\<lparr>m_bucketIndex := m_bucketIndex a + 1,
                m_currEntry := it_buckets a ! (m_bucketIndex a + 1)\<rparr>"
    from empty False inb have unfold: "skipEmpty a = skipEmpty ?n"
      by (simp add: skipEmpty.simps [of a] Let_def)
    show ?thesis
    proof (cases "it_buckets a ! (m_bucketIndex a + 1) = []")
      case False
      then have "skipEmpty ?n = Inr ?n" by (simp add: skipEmpty_nonempty)
      with unfold False \<open>\<not> it_capacity a \<le> m_bucketIndex a + 1\<close> show ?thesis
        by (intro disjI1 exI [of _ "m_bucketIndex a + 1"]) auto
    next
      case True
      have step: "m_bucketIndex a < i \<Longrightarrow> i = m_bucketIndex a + 1 \<or> m_bucketIndex a + 1 < i" for i
        by arith
      from "1.IH" [OF empty refl _ _] False inb "1.prems" True
      consider (found) j where "m_bucketIndex a + 1 < j" "j < it_capacity a" "it_buckets a ! j \<noteq> []"
          "\<forall>i. m_bucketIndex a + 1 < i \<and> i < j \<longrightarrow> it_buckets a ! i = []"
          "skipEmpty ?n = Inr (?n\<lparr>m_bucketIndex := j, m_currEntry := it_buckets a ! j\<rparr>)"
        | (none) j where "\<forall>i. m_bucketIndex a + 1 < i \<and> i < it_capacity a \<longrightarrow> it_buckets a ! i = []"
          "it_capacity a \<le> j" "skipEmpty ?n = Inr (?n\<lparr>m_bucketIndex := j\<rparr>)"
        by auto
      then show ?thesis
      proof cases
        case found
        from found(4) True have "\<forall>i. m_bucketIndex a < i \<and> i < j \<longrightarrow> it_buckets a ! i = []"
          using step by blast
        with found unfold show ?thesis
          by (intro disjI1 exI [of _ j]) simp
      next
        case none
        from none(1) True have "\<forall>i. m_bucketIndex a < i \<and> i < it_capacity a \<longrightarrow> it_buckets a ! i = []"
          using step by blast
        moreover from none unfold True empty have "skipEmpty a = Inr (a\<lparr>m_bucketIndex := j\<rparr>)"
          by simp
        ultimately show ?thesis using none(2) by blast
      qed
    qed
  qed
qed

text \<open>
  C10. \<^verbatim>\<open>operator++\<close> on a cursor over an array of \<open>it_capacity\<close> slots. On the end
  cursor it dereferences null. On a cursor at an entry it returns: the next entry of the
  chain when there is one; otherwise the head of the first non-empty bucket after the
  current one; otherwise, when every later bucket is empty, the null cursor with the
  bucket index at or past the capacity.
\<close>

theorem increment_defined:
  assumes "it_capacity it = length (it_buckets it)"
  shows "(m_currEntry it = [] \<longrightarrow> increment it = Inl NullDereference)
       \<and> (\<forall>e es. m_currEntry it = e # es \<longrightarrow>
            (es \<noteq> [] \<longrightarrow> increment it = Inr (it\<lparr>m_currEntry := es\<rparr>))
          \<and> (es = [] \<longrightarrow>
               (\<exists>j. m_bucketIndex it < j \<and> j < it_capacity it \<and> it_buckets it ! j \<noteq> []
                   \<and> (\<forall>i. m_bucketIndex it < i \<and> i < j \<longrightarrow> it_buckets it ! i = [])
                   \<and> increment it = Inr (it\<lparr>m_bucketIndex := j, m_currEntry := it_buckets it ! j\<rparr>))
             \<or> ((\<forall>i. m_bucketIndex it < i \<and> i < it_capacity it \<longrightarrow> it_buckets it ! i = [])
                   \<and> (\<exists>j. it_capacity it \<le> j
                         \<and> increment it = Inr (it\<lparr>m_bucketIndex := j, m_currEntry := []\<rparr>)))))"
proof (intro conjI allI impI)
  assume "m_currEntry it = []"
  then show "increment it = Inl NullDereference" by (simp add: increment_def)
next
  fix e es
  assume "m_currEntry it = e # es" "es \<noteq> []"
  then show "increment it = Inr (it\<lparr>m_currEntry := es\<rparr>)"
    by (simp add: increment_def skipEmpty_nonempty)
next
  fix e es
  assume cur: "m_currEntry it = e # es" and "es = []"
  let ?a = "it\<lparr>m_currEntry := []\<rparr>"
  let ?found = "\<exists>j. m_bucketIndex it < j \<and> j < it_capacity it \<and> it_buckets it ! j \<noteq> []
            \<and> (\<forall>i. m_bucketIndex it < i \<and> i < j \<longrightarrow> it_buckets it ! i = [])
            \<and> increment it = Inr (it\<lparr>m_bucketIndex := j, m_currEntry := it_buckets it ! j\<rparr>)"
  let ?none = "(\<forall>i. m_bucketIndex it < i \<and> i < it_capacity it \<longrightarrow> it_buckets it ! i = [])
            \<and> (\<exists>j. it_capacity it \<le> j
                  \<and> increment it = Inr (it\<lparr>m_bucketIndex := j, m_currEntry := []\<rparr>))"
  from cur \<open>es = []\<close> have inc: "increment it = skipEmpty ?a"
    by (simp add: increment_def)
  from assms have "it_capacity ?a = length (it_buckets ?a)" "m_currEntry ?a = []" by simp_all
  from skipEmpty_scan [OF this] show "?found \<or> ?none"
  proof (elim disjE exE conjE)
    fix j
    assume "m_bucketIndex ?a < j" "j < it_capacity ?a" "it_buckets ?a ! j \<noteq> []"
      "\<forall>i. m_bucketIndex ?a < i \<and> i < j \<longrightarrow> it_buckets ?a ! i = []"
      "skipEmpty ?a = Inr (?a\<lparr>m_bucketIndex := j, m_currEntry := it_buckets ?a ! j\<rparr>)"
    then have ?found
      unfolding inc by (intro exI [of _ j]) simp
    then show ?thesis ..
  next
    fix j
    assume "\<forall>i. m_bucketIndex ?a < i \<and> i < it_capacity ?a \<longrightarrow> it_buckets ?a ! i = []"
      "it_capacity ?a \<le> j" "skipEmpty ?a = Inr (?a\<lparr>m_bucketIndex := j\<rparr>)"
    then have ?none
      unfolding inc by (intro conjI exI [of _ j]) simp_all
    then show ?thesis ..
  qed
qed

text \<open>
  C7. Iterating the key view of a table that satisfies the invariant reads the keys of
  bucket 0's chain in chain order, then those of bucket 1, and so on; no key is read
  twice, these are the keys of the table, and the number of cursor steps is \<open>Count\<close>.
  The order in a chain is the order of insertion: a key that is not in the chain is linked
  behind its last entry.
\<close>

theorem GetKeys_iteration:
  assumes "HashMap_inv hasher t"
  shows "\<exists>visited. forEach m_key (GetKeys t) = Inr visited
           \<and> visited = concat (map (map m_key) (m_buckets t))
           \<and> distinct visited
           \<and> set visited = set (keys t)
           \<and> length visited = Count t
           \<and> (\<forall>c k v. k \<notin> m_key ` set c \<longrightarrow>
                 chainPlace hasher k v c = (False, c @ [Entry_new hasher k v]))"
proof -
  have "forEach m_key (GetKeys t) = Inr (map m_key (entries t))"
    using assms by (rule forEach_table(1))
  moreover have "map m_key (entries t) = concat (map (map m_key) (m_buckets t))"
    by (simp add: entries_def map_concat)
  moreover have "distinct (map m_key (entries t))"
    using inv_distinct_keys [OF assms] by (simp add: keys_def)
  moreover have "length (map m_key (entries t)) = Count t"
    using assms by (simp add: HashMap_inv_def Count_def)
  ultimately show ?thesis
    by (simp add: keys_def chainPlace_absent)
qed

text \<open>
  C9. \<^verbatim>\<open>Clear()\<close> on a table that satisfies the invariant returns the table that the
  constructor builds for the same capacity and load factor: the count is zero, every
  bucket is empty, each of the three views iterates over nothing, and capacity and
  threshold are those from before the call.
\<close>

theorem Clear_resets:
  assumes "HashMap_inv hasher t"
  shows "\<exists>t'. Clear t = Inr t'
           \<and> Count t' = 0
           \<and> m_buckets t' = replicate (m_capacity t) []
           \<and> forEach m_key (GetKeys t') = Inr []
           \<and> forEach m_value (GetValues t') = Inr []
           \<and> forEach (\<lambda>e. e) (GetEntries t') = Inr []
           \<and> m_capacity t' = m_capacity t
           \<and> m_maxCount t' = m_maxCount t
           \<and> t' = HashMap_new (m_capacity t) (m_loadFactor t)"
proof -
  let ?t' = "HashMap_new (m_capacity t) (m_loadFactor t) :: ('a, 'b) HashMap"
  from assms have cap: "0 < m_capacity t" by (simp add: HashMap_inv_def)
  then have inv': "HashMap_inv hasher ?t'" by (rule inv_new)
  have empty: "entries ?t' = []"
    by (simp add: entries_def HashMap_new_def)
  have "Clear t = Inr ?t'" using assms by (rule Clear_new)
  moreover have "forEach m_key (GetKeys ?t') = Inr []"
    using forEach_table(1) [OF inv', of m_key] empty by simp
  moreover have "forEach m_value (GetValues ?t') = Inr []"
    using forEach_table(2) [OF inv', of m_value] empty by simp
  moreover have "forEach (\<lambda>e. e) (GetEntries ?t') = Inr []"
    using forEach_table(3) [OF inv', of "\<lambda>e. e"] empty by simp
  moreover have "m_maxCount ?t' = m_maxCount t"
    using assms by (simp add: HashMap_inv_def HashMap_new_def)
  ultimately show ?thesis
    by (simp add: Count_def HashMap_new_def)
qed

lemma demo_table_inv: "HashMap_inv (\<lambda>k. k) demo_table"
  by code_simp

theorem Remove_correct_witness:
  "HashMap_inv (\<lambda>k. k) demo_table
   \<and> 9 \<notin> set (keys demo_table)
   \<and> Remove (\<lambda>k. k) 9 demo_table = Inr (False, demo_table)
   \<and> 5 \<in> set (keys demo_table)
   \<and> (\<exists>t'. Remove (\<lambda>k. k) 5 demo_table = Inr (True, t')
         \<and> m_buckets t' = [ [], [\<lparr>m_hashCode = 1, m_key = 1, m_value = ''A''\<rparr>],
                            [\<lparr>m_hashCode = 2, m_key = 2, m_value = ''B''\<rparr>], [] ]
         \<and> m_count t' = 2 \<and> m_capacity t' = 4 \<and> m_maxCount t' = 3)"
proof -
  have absent: "9 \<notin> set (keys demo_table)" by code_simp
  have present: "5 \<in> set (keys demo_table)" by code_simp
  have filtered: "map (filter (\<lambda>e. m_key e \<noteq> 5)) (m_buckets demo_table)
      = [ [], [\<lparr>m_hashCode = 1, m_key = 1, m_value = ''A''\<rparr>],
         [\<lparr>m_hashCode = 2, m_key = 2, m_value = ''B''\<rparr>], [] ]"
    by code_simp
  have fields: "m_count demo_table = 3" "m_capacity demo_table = 4" "m_maxCount demo_table = 3"
    by (simp_all add: demo_table_def)
  from Remove_correct [OF demo_table_inv, of 9] absent
  have "Remove (\<lambda>k. k) 9 demo_table = Inr (False, demo_table)" by simp
  moreover from Remove_correct [OF demo_table_inv, of 5] present filtered fields
  have "\<exists>t'. Remove (\<lambda>k. k) 5 demo_table = Inr (True, t')
         \<and> m_buckets t' = [ [], [\<lparr>m_hashCode = 1, m_key = 1, m_value = ''A''\<rparr>],
                            [\<lparr>m_hashCode = 2, m_key = 2, m_value = ''B''\<rparr>], [] ]
         \<and> m_count t' = 2 \<and> m_capacity t' = 4 \<and> m_maxCount t' = 3"
    by auto
  ultimately show ?thesis
    using demo_table_inv absent present by blast
qed

theorem increment_defined_witness:
  "it_capacity demo_cursor = length (it_buckets demo_cursor)
   \<and> increment (demo_cursor\<lparr>m_currEntry := []\<rparr>) = Inl NullDereference
   \<and> increment demo_cursor
       = Inr (demo_cursor\<lparr>m_bucketIndex := 2,
                           m_currEntry := [\<lparr>m_hashCode = 2, m_key = 2, m_value = ''B''\<rparr>]\<rparr>)
   \<and> Collection_begin (GetKeys (HashMap_new 2 (3 / 4) :: (nat, string) HashMap))
       = Inr \<lparr>it_buckets = [ [], [] ], it_capacity = 2, m_bucketIndex = 2, m_currEntry = []\<rparr>
   \<and> increment \<lparr>it_buckets = [ [], [] ] :: (nat, string) chain list, it_capacity = 2,
                  m_bucketIndex = 2, m_currEntry = []\<rparr>
       = Inl NullDereference"
proof -
  let ?end = "\<lparr>it_buckets = [ [], [] ] :: (nat, string) chain list, it_capacity = 2,
               m_bucketIndex = 2, m_currEntry = []\<rparr>"
  have start: "Collection_begin (GetKeys (HashMap_new 2 (3 / 4) :: (nat, string) HashMap)) = Inr ?end"
    by code_simp
  have "it_capacity ?end = length (it_buckets ?end)" by simp
  from increment_defined [OF this] have at_end: "increment ?end = Inl NullDereference" by simp
  have valid: "it_capacity demo_cursor = length (it_buckets demo_cursor)" by code_simp
  then have "it_capacity (demo_cursor\<lparr>m_currEntry := []\<rparr>)
             = length (it_buckets (demo_cursor\<lparr>m_currEntry := []\<rparr>))"
    by simp
  from increment_defined [OF this]
  have "increment (demo_cursor\<lparr>m_currEntry := []\<rparr>) = Inl NullDereference" by simp
  moreover have "increment demo_cursor
       = Inr (demo_cursor\<lparr>m_bucketIndex := 2,
                           m_currEntry := [\<lparr>m_hashCode = 2, m_key = 2, m_value = ''B''\<rparr>]\<rparr>)"
    by code_simp
  ultimately show ?thesis using valid start at_end by blast
qed

theorem GetKeys_iteration_witness:
  "HashMap_inv (\<lambda>k. k) demo_table
   \<and> forEach m_key (GetKeys demo_table) = Inr [1, 5, 2]
   \<and> Count demo_table = 3"
proof -
  have "concat (map (map m_key) (m_buckets demo_table)) = [1, 5, 2]" by code_simp
  moreover have "Count demo_table = 3" by code_simp
  ultimately show ?thesis
    using GetKeys_iteration [OF demo_table_inv] demo_table_inv by auto
qed

theorem Clear_resets_witness:
  "HashMap_inv (\<lambda>k. k) demo_table
   \<and> Clear demo_table = Inr (HashMap_new 4 (3 / 4))
   \<and> forEach m_key (GetKeys (HashMap_new 4 (3 / 4) :: (nat, string) HashMap)) = Inr []"
proof -
  have "m_capacity demo_table = 4" "m_loadFactor demo_table = 3 / 4"
    by (simp_all add: demo_table_def)
  with Clear_resets [OF demo_table_inv] demo_table_inv show ?thesis by auto
qed

subsection \<open>Placement without growth\<close>

lemma grows_refl: "grows t t"
  by (simp add: grows_def)

lemma grows_trans: "grows t t1 \<Longrightarrow> grows t1 t2 \<Longrightarrow> grows t t2"
  by (auto simp add: grows_def)

lemma grows_le: "grows t t' \<Longrightarrow> m_capacity t \<le> m_capacity t'"
  by (auto simp add: grows_def)

lemma PlaceInBucket_plain:
  assumes "bucket < length (m_buckets t)"
    and "chainPlace hasher k v (m_buckets t ! bucket) = (found, c)"
    and "found \<or> m_count t + 1 \<le> m_maxCount t"
  shows "PlaceInBucket hasher fuel bucket k v t =
           Inr (found, t\<lparr>m_buckets := (m_buckets t)[bucket := c],
                          m_count := (if found then m_count t else m_count t + 1)\<rparr>)"
  using assms by (cases found) (auto simp add: PlaceInBucket.simps Let_def)

lemma capacity_grows:
  shows "PlaceInBucket hasher fuel bucket k v t = Inr r \<Longrightarrow> grows t (snd r)"
    and "Reallocate hasher fuel t = Inr t' \<Longrightarrow> 2 * m_capacity t \<le> m_capacity t'"
    and "ReallocateLoop hasher fuel oldBuckets i t = Inr t' \<Longrightarrow> grows t t'"
    and "ReallocateChain hasher fuel c t = Inr t' \<Longrightarrow> grows t t'"
proof (induction hasher fuel bucket k v t and hasher fuel t and hasher fuel oldBuckets i t
    and hasher fuel c t
    arbitrary: r and t' and t' and t'
    rule: PlaceInBucket_Reallocate_ReallocateLoop_ReallocateChain.induct)
  case (1 hasher fuel bucket k v t)
  from "1.prems" have inb: "\<not> length (m_buckets t) \<le> bucket"
    by (auto simp add: PlaceInBucket.simps split: if_splits)
  obtain found c where cp: "chainPlace hasher k v (m_buckets t ! bucket) = (found, c)"
    by (cases "chainPlace hasher k v (m_buckets t ! bucket)")
  let ?t1 = "t\<lparr>m_buckets := (m_buckets t)[bucket := c], m_count := m_count t + 1\<rparr>"
  show ?case
  proof (cases "\<not> found \<and> m_maxCount ?t1 < m_count ?t1")
    case False
    with inb cp "1.prems" show ?thesis
      by (cases found) (auto simp add: PlaceInBucket.simps Let_def grows_def split: if_splits)
  next
    case True
    with inb cp "1.prems" obtain n t2 where n: "fuel = Suc n"
        and re: "Reallocate hasher n ?t1 = Inr t2" and r: "r = (False, t2)"
      by (cases found) (auto simp add: PlaceInBucket.simps Let_def split: nat.splits sum.splits)
    from "1.IH" [OF inb cp [symmetric] _ refl _ n re] True
    have "2 * m_capacity ?t1 \<le> m_capacity t2" by simp
    with r show ?thesis by (simp add: grows_def)
  qed
next
  case (2 hasher fuel t)
  from "2.prems" "2.IH" have "grows (t\<lparr>m_buckets := replicate (m_capacity t * 2) [],
            m_capacity := m_capacity t * 2,
            m_maxCount := threshold (m_loadFactor t) (m_capacity t * 2),
            m_count := 0\<rparr>) t'"
    by (simp add: Reallocate.simps)
  then show ?case by (auto simp add: grows_def)
next
  case (3 hasher fuel oldBuckets i t)
  show ?case
  proof (cases "i < m_capacity t div 2")
    case False
    with "3.prems" show ?thesis
      by (simp add: ReallocateLoop.simps [of hasher fuel oldBuckets i t] grows_refl)
  next
    case True
    with "3.prems" have inb: "\<not> length oldBuckets \<le> i"
      by (auto simp add: ReallocateLoop.simps [of hasher fuel oldBuckets i t] split: if_splits)
    with True "3.prems" obtain t1 where
        ch: "ReallocateChain hasher fuel (oldBuckets ! i) t = Inr t1"
        and lp: "ReallocateLoop hasher fuel oldBuckets (i + 1) t1 = Inr t'"
      by (auto simp add: ReallocateLoop.simps [of hasher fuel oldBuckets i t] split: sum.splits)
    from "3.IH"(1) [OF True inb ch] "3.IH"(2) [OF True inb ch lp]
    show ?thesis by (rule grows_trans)
  qed
next
  case (4 hasher fuel t)
  then show ?case by (simp add: grows_refl)
next
  case (5 hasher fuel e es t)
  from "5.prems" obtain b found t1 where gb: "GetBucket hasher (m_key e) t = Inr b"
      and pl: "PlaceInBucket hasher fuel b (m_key e) (m_value e) t = Inr (found, t1)"
      and ch: "ReallocateChain hasher fuel es t1 = Inr t'"
    by (auto split: sum.splits prod.splits)
  from "5.IH"(1) [OF gb pl] have "grows t t1" by simp
  moreover from "5.IH"(2) [OF gb pl refl ch] have "grows t1 t'" .
  ultimately show ?case by (rule grows_trans)
qed

subsection \<open>Lookup\<close>

lemma inv_bucket_index:
  "HashMap_inv hasher t \<Longrightarrow> hasher k mod m_capacity t < length (m_buckets t)"
  by (simp add: HashMap_inv_def)

lemma GetBucket_inv:
  "HashMap_inv hasher t \<Longrightarrow> GetBucket hasher k t = Inr (hasher k mod m_capacity t)"
  by (simp add: HashMap_inv_def GetBucket_def)

lemma chain_unique:
  assumes "distinct (map m_key c)" and "x \<in> set c" and "y \<in> set c" and "m_key x = m_key y"
  shows "x = y"
proof -
  from assms(1) have "inj_on m_key (set c)" by (simp add: distinct_map)
  with assms(2-4) show ?thesis by (simp add: inj_on_def)
qed

lemma entries_unique:
  assumes "HashMap_inv hasher t" and "x \<in> set (entries t)" and "y \<in> set (entries t)"
    and "m_key x = m_key y"
  shows "x = y"
  using inv_distinct_keys [OF assms(1)] assms(2-4)
  unfolding keys_def by (rule chain_unique)

lemma inv_distinct_entries: "HashMap_inv hasher t \<Longrightarrow> distinct (entries t)"
  using inv_distinct_keys [of hasher t] by (simp add: keys_def distinct_map)

lemma find_present:
  assumes "HashMap_inv hasher t" and "e \<in> set (entries t)"
  shows "\<exists>pos. GetFromBucket hasher (hasher (m_key e) mod m_capacity t) (m_key e) t = Inr (Some pos)
           \<and> EntryAt t (hasher (m_key e) mod m_capacity t, pos) = e"
proof -
  let ?i = "hasher (m_key e) mod m_capacity t"
  let ?c = "m_buckets t ! ?i"
  from assms(1) have i: "?i < m_capacity t" "?i < length (m_buckets t)"
    by (simp_all add: HashMap_inv_def)
  from inv_chain [OF assms(1) i(1)] have ok: "chain_ok hasher (m_capacity t) ?i ?c" .
  from inv_entry(2) [OF assms] have mem: "e \<in> set ?c" .
  then have "m_key e \<in> m_key ` set ?c" by (rule imageI)
  with chainFind_present [OF chain_ok_hashed [OF ok] ]
  obtain pos where pos: "chainFind hasher (m_key e) ?c = Some pos" "pos < length ?c"
      "m_key (?c ! pos) = m_key e"
    by blast
  from ok have "distinct (map m_key ?c)" by (simp add: chain_ok_def)
  from chain_unique [OF this _ mem pos(3)] pos(2) have "?c ! pos = e" by simp
  with pos(1) i(2) show ?thesis
    by (simp add: GetFromBucket_def EntryAt_def)
qed

lemma find_absent:
  assumes "HashMap_inv hasher t" and "k \<notin> set (keys t)"
  shows "GetFromBucket hasher (hasher k mod m_capacity t) k t = Inr None"
proof -
  let ?i = "hasher k mod m_capacity t"
  from assms(1) have i: "?i < m_capacity t" "?i < length (m_buckets t)"
    by (simp_all add: HashMap_inv_def)
  from inv_chain [OF assms(1) i(1)] have "hashed hasher (m_buckets t ! ?i)"
    by (rule chain_ok_hashed)
  moreover from assms have "k \<notin> m_key ` set (m_buckets t ! ?i)"
    by (simp add: inv_key_bucket)
  ultimately have "chainFind hasher k (m_buckets t ! ?i) = None"
    by (rule chainFind_absent)
  with i(2) show ?thesis by (simp add: GetFromBucket_def)
qed

lemma lookupValue_present:
  assumes "HashMap_inv hasher t" and "e \<in> set (entries t)"
  shows "lookupValue hasher (m_key e) t = Inr (Some (m_value e))"
  using find_present [OF assms] GetBucket_inv [OF assms(1), of "m_key e"]
  by (auto simp add: lookupValue_def GetValue_def)

lemma lookupValue_absent:
  assumes "HashMap_inv hasher t" and "k \<notin> set (keys t)"
  shows "lookupValue hasher k t = Inr None"
  using find_absent [OF assms] GetBucket_inv [OF assms(1), of k]
  by (simp add: lookupValue_def)

lemma subscript_present:
  assumes "HashMap_inv hasher t" and "e \<in> set (entries t)"
  shows "\<exists>r. subscript hasher fuel dflt (m_key e) t = Inr (r, t) \<and> EntryAt t r = e"
  using find_present [OF assms] GetBucket_inv [OF assms(1), of "m_key e"]
  by (auto simp add: subscript_def)

subsection \<open>The table after a placement without growth\<close>

lemma length_concat_update:
  "i < length bs \<Longrightarrow> length (concat (bs[i := bs ! i @ xs])) = length (concat bs) + length xs"
proof (induction bs arbitrary: i)
  case Nil
  then show ?case by simp
next
  case (Cons b bs)
  then show ?case by (cases i) simp_all
qed

lemma set_concat_update:
  "i < length bs \<Longrightarrow> set (concat (bs[i := bs ! i @ xs])) = set (concat bs) \<union> set xs"
proof (induction bs arbitrary: i)
  case Nil
  then show ?case by simp
next
  case (Cons b bs)
  then show ?case by (cases i) auto
qed

lemma buckets_ok_update:
  assumes "buckets_ok hasher cap 0 bs" and "i < length bs" and "chain_ok hasher cap i c"
  shows "buckets_ok hasher cap 0 (bs[i := c])"
  using assms by (simp add: buckets_ok_nth nth_list_update)

lemma placed_absent_inv:
  fixes t :: "('k, 'v) HashMap" and k :: 'k and v :: 'v
  assumes "HashMap_inv hasher t" and "k \<notin> set (keys t)"
  defines "i \<equiv> hasher k mod m_capacity t"
  defines "t1 \<equiv> t\<lparr>m_buckets := (m_buckets t)[i := m_buckets t ! i @ [Entry_new hasher k v] ],
                   m_count := m_count t + 1\<rparr>"
  shows "HashMap_inv hasher t1"
    and "set (entries t1) = insert (Entry_new hasher k v) (set (entries t))"
proof -
  from assms(1) have i: "i < m_capacity t" "i < length (m_buckets t)"
    by (simp_all add: HashMap_inv_def i_def)
  from inv_chain [OF assms(1) i(1)] have ok: "chain_ok hasher (m_capacity t) i (m_buckets t ! i)" .
  from assms(1,2) have "k \<notin> m_key ` set (m_buckets t ! i)"
    by (simp add: inv_key_bucket i_def)
  with ok have "chain_ok hasher (m_capacity t) i (m_buckets t ! i @ [Entry_new hasher k v])"
    by (simp add: chain_ok_def Entry_new_def i_def)
  with assms(1) i(2)
  have "buckets_ok hasher (m_capacity t) 0 ((m_buckets t)[i := m_buckets t ! i @ [Entry_new hasher k v] ])"
    by (intro buckets_ok_update) (simp_all add: HashMap_inv_def)
  with assms(1) i(2) show "HashMap_inv hasher t1"
    by (simp add: HashMap_inv_def t1_def entries_def length_concat_update)
  from set_concat_update [OF i(2), of "[Entry_new hasher k v]"]
  show "set (entries t1) = insert (Entry_new hasher k v) (set (entries t))"
    unfolding t1_def entries_def by (simp del: set_concat)
qed

lemma overwrite_key [simp]: "m_key (overwrite k v e) = m_key e"
  by (simp add: overwrite_def)

lemma overwrite_hash [simp]: "m_hashCode (overwrite k v e) = m_hashCode e"
  by (simp add: overwrite_def)

lemma buckets_ok_overwrite:
  "buckets_ok hasher cap i bs \<Longrightarrow> buckets_ok hasher cap i (map (map (overwrite k v)) bs)"
  by (induction bs arbitrary: i) (auto simp add: chain_ok_def list_all_iff comp_def)

lemma update_bucket_overwrite:
  assumes "HashMap_inv hasher t"
  shows "(m_buckets t)[hasher k mod m_capacity t :=
            map (overwrite k v) (m_buckets t ! (hasher k mod m_capacity t))]
         = map (map (overwrite k v)) (m_buckets t)"
proof (rule nth_equalityI)
  show "length ((m_buckets t)[hasher k mod m_capacity t :=
            map (overwrite k v) (m_buckets t ! (hasher k mod m_capacity t))])
        = length (map (map (overwrite k v)) (m_buckets t))"
    by simp
next
  fix j
  assume "j < length ((m_buckets t)[hasher k mod m_capacity t :=
            map (overwrite k v) (m_buckets t ! (hasher k mod m_capacity t))])"
  with assms have j: "j < m_capacity t" "j < length (m_buckets t)"
    by (simp_all add: HashMap_inv_def)
  show "(m_buckets t)[hasher k mod m_capacity t :=
            map (overwrite k v) (m_buckets t ! (hasher k mod m_capacity t))] ! j
        = map (map (overwrite k v)) (m_buckets t) ! j"
  proof (cases "j = hasher k mod m_capacity t")
    case True
    with j show ?thesis by simp
  next
    case False
    with inv_other_bucket [OF assms j(1)] have "\<forall>e \<in> set (m_buckets t ! j). m_key e \<noteq> k"
      by blast
    then have "map (overwrite k v) (m_buckets t ! j) = m_buckets t ! j"
      by (simp add: map_idI overwrite_def)
    with False j show ?thesis by simp
  qed
qed

lemma placed_present_inv:
  fixes t :: "('k, 'v) HashMap" and k :: 'k and v :: 'v
  assumes "HashMap_inv hasher t"
  defines "t1 \<equiv> t\<lparr>m_buckets := map (map (overwrite k v)) (m_buckets t)\<rparr>"
  shows "HashMap_inv hasher t1"
    and "entries t1 = map (overwrite k v) (entries t)"
proof -
  show e: "entries t1 = map (overwrite k v) (entries t)"
    by (simp add: t1_def entries_def map_concat)
  from assms(1) show "HashMap_inv hasher t1"
    unfolding HashMap_inv_def e by (simp add: t1_def buckets_ok_overwrite)
qed

subsection \<open>Reallocate\<close>

lemma PlaceInBucket_same_capacity:
  assumes "PlaceInBucket hasher fuel bucket k v t = Inr (found, t')"
    and "m_capacity t' = m_capacity t" and "0 < m_capacity t"
  shows "\<exists>c. chainPlace hasher k v (m_buckets t ! bucket) = (found, c)
           \<and> bucket < length (m_buckets t)
           \<and> t' = t\<lparr>m_buckets := (m_buckets t)[bucket := c],
                      m_count := (if found then m_count t else m_count t + 1)\<rparr>"
proof -
  from assms(1) have inb: "\<not> length (m_buckets t) \<le> bucket"
    by (auto simp add: PlaceInBucket.simps split: if_splits)
  obtain f c where cp: "chainPlace hasher k v (m_buckets t ! bucket) = (f, c)"
    by (cases "chainPlace hasher k v (m_buckets t ! bucket)")
  let ?t1 = "t\<lparr>m_buckets := (m_buckets t)[bucket := c], m_count := m_count t + 1\<rparr>"
  show ?thesis
  proof (cases "\<not> f \<and> m_maxCount ?t1 < m_count ?t1")
    case False
    with inb cp assms(1) show ?thesis
      by (cases f) (auto simp add: PlaceInBucket.simps Let_def split: if_splits)
  next
    case True
    with inb cp assms(1) obtain n where "Reallocate hasher n ?t1 = Inr t'"
      by (cases f) (auto simp add: PlaceInBucket.simps Let_def split: nat.splits sum.splits)
    from capacity_grows(2) [OF this] assms(2,3) show ?thesis by simp
  qed
qed

lemma Entry_new_self: "m_hashCode e = hasher (m_key e) \<Longrightarrow> Entry_new hasher (m_key e) (m_value e) = e"
  by (simp add: Entry_new_def)

lemma keys_insert:
  "set (entries t1) = insert e (set (entries t)) \<Longrightarrow> set (keys t1) = insert (m_key e) (set (keys t))"
  by (simp add: keys_def)

lemma ReallocateChain_result:
  assumes "ReallocateChain hasher fuel es t = Inr t'" and "m_capacity t' = m_capacity t"
    and "HashMap_inv hasher t" and "hashed hasher es" and "distinct (map m_key es)"
    and "m_key ` set es \<inter> set (keys t) = {}"
  shows "HashMap_inv hasher t' \<and> set (entries t') = set (entries t) \<union> set es
         \<and> m_loadFactor t' = m_loadFactor t"
  using assms
proof (induction es arbitrary: t)
  case Nil
  then show ?case by simp
next
  case (Cons e es)
  let ?i = "hasher (m_key e) mod m_capacity t"
  from Cons.prems(3) have gb: "GetBucket hasher (m_key e) t = Inr ?i"
    by (rule GetBucket_inv)
  with Cons.prems(1) obtain found t1 where
      pl: "PlaceInBucket hasher fuel ?i (m_key e) (m_value e) t = Inr (found, t1)"
      and ch: "ReallocateChain hasher fuel es t1 = Inr t'"
    by (auto split: sum.splits prod.splits)
  from capacity_grows(1) [OF pl] have "m_capacity t \<le> m_capacity t1"
    by (simp add: grows_le)
  moreover from capacity_grows(4) [OF ch] have "m_capacity t1 \<le> m_capacity t'"
    by (rule grows_le)
  ultimately have same: "m_capacity t1 = m_capacity t"
    using Cons.prems(2) by simp
  from Cons.prems(3) have pos: "0 < m_capacity t" by (simp add: HashMap_inv_def)
  from Cons.prems(6) have absent: "m_key e \<notin> set (keys t)" by auto
  with Cons.prems(3) have "m_key e \<notin> m_key ` set (m_buckets t ! ?i)"
    by (simp add: inv_key_bucket)
  then have "chainPlace hasher (m_key e) (m_value e) (m_buckets t ! ?i)
             = (False, m_buckets t ! ?i @ [Entry_new hasher (m_key e) (m_value e)])"
    by (rule chainPlace_absent)
  with PlaceInBucket_same_capacity [OF pl same pos]
  have t1: "t1 = t\<lparr>m_buckets := (m_buckets t)[?i := m_buckets t ! ?i @ [Entry_new hasher (m_key e) (m_value e)] ],
                    m_count := m_count t + 1\<rparr>"
    by auto
  from Cons.prems(4) have self: "Entry_new hasher (m_key e) (m_value e) = e"
    by (simp add: Entry_new_self)
  from placed_absent_inv [OF Cons.prems(3) absent, of "m_value e"]
  have inv1: "HashMap_inv hasher t1" and set1: "set (entries t1) = insert e (set (entries t))"
    unfolding t1 self by simp_all
  have lf1: "m_loadFactor t1 = m_loadFactor t" by (simp add: t1)
  from Cons.prems(5,6) keys_insert [OF set1]
  have disj: "m_key ` set es \<inter> set (keys t1) = {}" by auto
  from Cons.prems(4,5) have "hashed hasher es" "distinct (map m_key es)" by simp_all
  from Cons.IH [OF ch _ inv1 this disj] Cons.prems(2) same
  have "HashMap_inv hasher t' \<and> set (entries t') = set (entries t1) \<union> set es
         \<and> m_loadFactor t' = m_loadFactor t1"
    by simp
  with set1 lf1 show ?case by auto
qed

lemma ReallocateLoop_exit:
  "ReallocateLoop hasher fuel old i t = Inr t' \<Longrightarrow> i \<le> length old \<Longrightarrow>
     m_capacity t' div 2 \<le> length old"
proof (induction "length old - i" arbitrary: i t)
  case 0
  then show ?case
    by (auto simp add: ReallocateLoop.simps [of hasher fuel old i t] split: if_splits)
next
  case (Suc m)
  show ?case
  proof (cases "i < m_capacity t div 2")
    case False
    with Suc.prems show ?thesis
      by (auto simp add: ReallocateLoop.simps [of hasher fuel old i t])
  next
    case True
    with Suc.prems Suc.hyps(2) obtain t1 where
        "ReallocateLoop hasher fuel old (i + 1) t1 = Inr t'"
      by (auto simp add: ReallocateLoop.simps [of hasher fuel old i t] split: sum.splits if_splits)
    moreover from Suc.hyps(2) have "m = length old - (i + 1)" "i + 1 \<le> length old" by simp_all
    ultimately show ?thesis using Suc.hyps(1) by blast
  qed
qed

lemma ReallocateLoop_capacity:
  assumes "ReallocateLoop hasher fuel old i t = Inr t'" and "i \<le> length old"
    and "0 < length old" and "m_capacity t = 2 * length old"
  shows "m_capacity t' = m_capacity t"
proof -
  from ReallocateLoop_exit [OF assms(1,2)] have "m_capacity t' div 2 \<le> length old" .
  moreover from capacity_grows(3) [OF assms(1)]
  have "m_capacity t' = m_capacity t \<or> 2 * m_capacity t \<le> m_capacity t'"
    by (simp add: grows_def)
  ultimately show ?thesis
  proof (elim disjE)
    assume "2 * m_capacity t \<le> m_capacity t'"
    with assms(3,4) \<open>m_capacity t' div 2 \<le> length old\<close> show ?thesis by arith
  qed
qed

lemma ReallocateLoop_result:
  assumes "ReallocateLoop hasher fuel old i t = Inr t'" and "i \<le> length old"
    and "0 < length old" and "m_capacity t = 2 * length old"
    and "HashMap_inv hasher t" and "\<forall>c \<in> set old. hashed hasher c"
    and "distinct (map m_key (concat (drop i old)))"
    and "m_key ` set (concat (drop i old)) \<inter> set (keys t) = {}"
  shows "HashMap_inv hasher t' \<and> set (entries t') = set (entries t) \<union> set (concat (drop i old))
         \<and> m_loadFactor t' = m_loadFactor t"
  using assms
proof (induction "length old - i" arbitrary: i t)
  case 0
  then show ?case
    by (auto simp add: ReallocateLoop.simps [of hasher fuel old i t] split: if_splits)
next
  case (Suc m)
  from Suc.hyps(2) have i: "i < length old" by simp
  with Suc.prems(4) have "i < m_capacity t div 2" by simp
  with i Suc.prems(1) obtain t1 where
      ch: "ReallocateChain hasher fuel (old ! i) t = Inr t1"
      and lp: "ReallocateLoop hasher fuel old (i + 1) t1 = Inr t'"
    by (auto simp add: ReallocateLoop.simps [of hasher fuel old i t] split: sum.splits)
  from ReallocateLoop_capacity [OF Suc.prems(1-4)] have "m_capacity t' = m_capacity t" .
  moreover from capacity_grows(4) [OF ch] have "m_capacity t \<le> m_capacity t1" by (rule grows_le)
  moreover from capacity_grows(3) [OF lp] have "m_capacity t1 \<le> m_capacity t'" by (rule grows_le)
  ultimately have same: "m_capacity t1 = m_capacity t" by simp
  from i have split: "drop i old = old ! i # drop (Suc i) old"
    by (simp add: Cons_nth_drop_Suc)
  from i Suc.prems(6) have h: "hashed hasher (old ! i)" by simp
  from Suc.prems(7) split have d: "distinct (map m_key (old ! i))"
      "distinct (map m_key (concat (drop (Suc i) old)))"
      "m_key ` set (old ! i) \<inter> m_key ` set (concat (drop (Suc i) old)) = {}"
    by simp_all
  from Suc.prems(8) split have dj: "m_key ` set (old ! i) \<inter> set (keys t) = {}"
      "m_key ` set (concat (drop (Suc i) old)) \<inter> set (keys t) = {}"
    by auto
  from ReallocateChain_result [OF ch same Suc.prems(5) h d(1) dj(1)]
  have r1: "HashMap_inv hasher t1" "set (entries t1) = set (entries t) \<union> set (old ! i)"
      "m_loadFactor t1 = m_loadFactor t"
    by simp_all
  from r1(2) have k1: "set (keys t1) = set (keys t) \<union> m_key ` set (old ! i)"
    by (simp add: keys_def image_Un)
  have dj1: "m_key ` set (concat (drop (i + 1) old)) \<inter> set (keys t1) = {}"
  proof -
    from d(3) dj(2) k1 have "m_key ` set (concat (drop (Suc i) old)) \<inter> set (keys t1) = {}"
      by blast
    then show ?thesis by (simp only: Suc_eq_plus1)
  qed
  from Suc.hyps(2) have m: "m = length old - (i + 1)" by simp
  from i have le: "i + 1 \<le> length old" by simp
  from same Suc.prems(4) have cap1: "m_capacity t1 = 2 * length old" by simp
  from d(2) have d1: "distinct (map m_key (concat (drop (i + 1) old)))" by simp
  from Suc.hyps(1) [OF m lp le Suc.prems(3) cap1 r1(1) Suc.prems(6) d1 dj1]
  have "HashMap_inv hasher t' \<and> set (entries t') = set (entries t1) \<union> set (concat (drop (i + 1) old))
         \<and> m_loadFactor t' = m_loadFactor t1" .
  with r1 split show ?case by auto
qed

lemma Reallocate_result:
  assumes "HashMap_inv hasher t" and "Reallocate hasher fuel t = Inr t'"
  shows "HashMap_inv hasher t'" and "m_capacity t' = 2 * m_capacity t"
    and "set (entries t') = set (entries t)" and "m_loadFactor t' = m_loadFactor t"
proof -
  let ?t0 = "t\<lparr>m_buckets := replicate (m_capacity t * 2) [],
                m_capacity := m_capacity t * 2,
                m_maxCount := threshold (m_loadFactor t) (m_capacity t * 2),
                m_count := 0\<rparr>"
  from assms(1) have cap: "0 < m_capacity t" "length (m_buckets t) = m_capacity t"
    by (simp_all add: HashMap_inv_def)
  from assms(2) have lp: "ReallocateLoop hasher fuel (m_buckets t) 0 ?t0 = Inr t'"
    by (simp add: Reallocate.simps)
  from cap have inv0: "HashMap_inv hasher ?t0"
    by (simp add: HashMap_inv_def entries_def buckets_ok_replicate)
  have empty: "entries ?t0 = []" "keys ?t0 = []"
    by (simp_all add: keys_def entries_def)
  from assms(1) have "\<forall>j < length (m_buckets t). hashed hasher (m_buckets t ! j)"
    by (auto simp add: HashMap_inv_def buckets_ok_nth intro: chain_ok_hashed)
  then have hashed: "\<forall>c \<in> set (m_buckets t). hashed hasher c"
    by (auto simp add: in_set_conv_nth)
  from inv_distinct_keys [OF assms(1)]
  have dist: "distinct (map m_key (concat (drop 0 (m_buckets t))))"
    by (simp add: keys_def entries_def)
  from cap have c0: "m_capacity ?t0 = 2 * length (m_buckets t)" "0 < length (m_buckets t)"
    by simp_all
  from empty have dj: "m_key ` set (concat (drop 0 (m_buckets t))) \<inter> set (keys ?t0) = {}"
    by simp
  from ReallocateLoop_result [OF lp _ c0(2) c0(1) inv0 hashed dist dj] empty
  have r: "HashMap_inv hasher t' \<and> set (entries t') = set (concat (m_buckets t))
         \<and> m_loadFactor t' = m_loadFactor t"
    by simp
  then show "HashMap_inv hasher t'" "set (entries t') = set (entries t)"
      "m_loadFactor t' = m_loadFactor t"
    by (simp_all add: entries_def)
  from ReallocateLoop_capacity [OF lp _ c0(2) c0(1)] cap
  show "m_capacity t' = 2 * m_capacity t" by simp
qed

subsection \<open>Completion of growth\<close>

lemma float_round_double: "float_round (2 * x) = 2 * float_round x"
proof (cases "x \<le> 0")
  case True
  then show ?thesis by (simp add: float_round.simps [of x] float_round.simps [of "2 * x"])
next
  case False
  show ?thesis
  proof (cases "x < 2 ^ 23")
    case True
    with False show ?thesis by (simp add: float_round.simps [of x])
  next
    case False
    then have "2 ^ 24 \<le> 2 * x" "\<not> 2 * x \<le> 0" by simp_all
    then show ?thesis by (simp add: float_round.simps [of "2 * x"])
  qed
qed

lemma loadProduct_double: "loadProduct lf (2 * c) = 2 * loadProduct lf c"
proof -
  have "float_round (of_nat (2 * c)) = 2 * float_round (of_nat c)"
    by (simp add: float_round_double)
  moreover have "lf * (2 * float_round (of_nat c)) = 2 * (lf * float_round (of_nat c))"
    by simp
  ultimately show ?thesis
    by (simp only: loadProduct_def float_round_double)
qed

lemma threshold_double:
  assumes "1 \<le> 2 * loadProduct lf c"
  shows "threshold lf c < threshold lf (2 * c)"
proof -
  let ?x = "loadProduct lf c"
  from assms have x: "1 \<le> 2 * ?x" .
  then have nonneg: "0 \<le> ?x" by simp
  have "of_int (\<lfloor>?x\<rfloor> + 1) \<le> 2 * ?x"
  proof (cases "1 \<le> ?x")
    case True
    have "of_int \<lfloor>?x\<rfloor> \<le> ?x" by (rule of_int_floor_le)
    moreover have "of_int (\<lfloor>?x\<rfloor> + 1) = of_int \<lfloor>?x\<rfloor> + (1::rat)" by simp
    ultimately show ?thesis using True by linarith
  next
    case False
    with nonneg have "\<lfloor>?x\<rfloor> = 0" by (simp add: floor_eq_iff)
    with x show ?thesis by simp
  qed
  then have "\<lfloor>?x\<rfloor> + 1 \<le> \<lfloor>2 * ?x\<rfloor>" by (simp only: le_floor_iff)
  moreover from nonneg have "0 \<le> \<lfloor>?x\<rfloor>" by simp
  ultimately show ?thesis
    unfolding threshold_def loadProduct_double by linarith
qed

lemma ReallocateChain_total:
  assumes "length (m_buckets t) = m_capacity t" and "0 < m_capacity t"
    and "m_count t + length es \<le> m_maxCount t"
  shows "\<exists>t'. ReallocateChain hasher fuel es t = Inr t'
           \<and> length (m_buckets t') = m_capacity t' \<and> m_capacity t' = m_capacity t
           \<and> m_maxCount t' = m_maxCount t \<and> m_count t' \<le> m_count t + length es"
  using assms
proof (induction es arbitrary: t)
  case Nil
  then show ?case by simp
next
  case (Cons e es)
  let ?i = "hasher (m_key e) mod m_capacity t"
  from Cons.prems have gb: "GetBucket hasher (m_key e) t = Inr ?i" and i: "?i < length (m_buckets t)"
    by (simp_all add: GetBucket_def)
  obtain f c where cp: "chainPlace hasher (m_key e) (m_value e) (m_buckets t ! ?i) = (f, c)"
    by (cases "chainPlace hasher (m_key e) (m_value e) (m_buckets t ! ?i)")
  let ?t1 = "t\<lparr>m_buckets := (m_buckets t)[?i := c],
                m_count := (if f then m_count t else m_count t + 1)\<rparr>"
  from Cons.prems(3) have "f \<or> m_count t + 1 \<le> m_maxCount t" by simp
  from PlaceInBucket_plain [OF i cp this]
  have pl: "PlaceInBucket hasher fuel ?i (m_key e) (m_value e) t = Inr (f, ?t1)" .
  from Cons.prems have "length (m_buckets ?t1) = m_capacity ?t1" "0 < m_capacity ?t1"
      "m_count ?t1 + length es \<le> m_maxCount ?t1"
    by simp_all
  from Cons.IH [OF this] obtain t' where t': "ReallocateChain hasher fuel es ?t1 = Inr t'"
      "length (m_buckets t') = m_capacity t'" "m_capacity t' = m_capacity ?t1"
      "m_maxCount t' = m_maxCount ?t1" "m_count t' \<le> m_count ?t1 + length es"
    by blast
  from gb pl t'(1) have "ReallocateChain hasher fuel (e # es) t = Inr t'" by simp
  with t' show ?case by (auto split: if_splits)
qed

lemma ReallocateLoop_total:
  assumes "i \<le> length old" and "m_capacity t = 2 * length old"
    and "length (m_buckets t) = m_capacity t" and "0 < length old"
    and "m_count t + length (concat (drop i old)) \<le> m_maxCount t"
  shows "\<exists>t'. ReallocateLoop hasher fuel old i t = Inr t'"
  using assms
proof (induction "length old - i" arbitrary: i t)
  case 0
  then show ?case
    by (simp add: ReallocateLoop.simps [of hasher fuel old i t])
next
  case (Suc m)
  from Suc.hyps(2) have i: "i < length old" by simp
  then have split: "drop i old = old ! i # drop (Suc i) old"
    by (simp add: Cons_nth_drop_Suc)
  from Suc.prems(2,4) have pos: "0 < m_capacity t" by simp
  from Suc.prems(5) split have "m_count t + length (old ! i) \<le> m_maxCount t" by simp
  from ReallocateChain_total [OF Suc.prems(3) pos this, of hasher fuel]
  obtain t1 where t1: "ReallocateChain hasher fuel (old ! i) t = Inr t1"
      "length (m_buckets t1) = m_capacity t1" "m_capacity t1 = m_capacity t"
      "m_maxCount t1 = m_maxCount t" "m_count t1 \<le> m_count t + length (old ! i)"
    by blast
  from Suc.hyps(2) have m: "m = length old - (i + 1)" by simp
  from i have le: "i + 1 \<le> length old" by simp
  from t1 Suc.prems(2) have cap1: "m_capacity t1 = 2 * length old" by simp
  from t1 Suc.prems(5) split
  have "m_count t1 + length (concat (drop (i + 1) old)) \<le> m_maxCount t1" by simp
  from Suc.hyps(1) [OF m le cap1 t1(2) Suc.prems(4) this]
  obtain t' where "ReallocateLoop hasher fuel old (i + 1) t1 = Inr t'" by blast
  with t1(1) i Suc.prems(2) show ?case
    by (simp add: ReallocateLoop.simps [of hasher fuel old i t])
qed

lemma Reallocate_total:
  assumes "length (m_buckets t) = m_capacity t" and "0 < m_capacity t"
    and "length (entries t) \<le> threshold (m_loadFactor t) (m_capacity t * 2)"
  shows "\<exists>t'. Reallocate hasher fuel t = Inr t'"
  unfolding Reallocate.simps
  using assms by (intro ReallocateLoop_total) (simp_all add: entries_def)

subsection \<open>Place\<close>

lemma inv_count_card: "HashMap_inv hasher t \<Longrightarrow> m_count t = card (set (entries t))"
  using inv_distinct_entries [of hasher t] by (simp add: HashMap_inv_def distinct_card)

lemma overwritten_entries:
  assumes "HashMap_inv hasher t" and "k \<in> set (keys t)"
  shows "set (map (overwrite k v) (entries t))
         = {e \<in> set (entries t). m_key e \<noteq> k} \<union> {Entry_new hasher k v}"
proof -
  from assms(2) obtain e0 where e0: "e0 \<in> set (entries t)" "m_key e0 = k"
    by (auto simp add: keys_def)
  have new: "overwrite k v e = Entry_new hasher k v" if "e \<in> set (entries t)" "m_key e = k" for e
    using inv_entry(1) [OF assms(1) that(1)] that(2)
    by (simp add: overwrite_def Entry_new_def)
  have old: "overwrite k v e = e" if "m_key e \<noteq> k" for e
    using that by (simp add: overwrite_def)
  show ?thesis
  proof (intro set_eqI iffI)
    fix x
    assume "x \<in> set (map (overwrite k v) (entries t))"
    then obtain e where e: "e \<in> set (entries t)" "x = overwrite k v e" by auto
    then show "x \<in> {e \<in> set (entries t). m_key e \<noteq> k} \<union> {Entry_new hasher k v}"
      using new [of e] old [of e] by (cases "m_key e = k") auto
  next
    fix x
    assume "x \<in> {e \<in> set (entries t). m_key e \<noteq> k} \<union> {Entry_new hasher k v}"
    then consider "x \<in> set (entries t)" "m_key x \<noteq> k" | "x = Entry_new hasher k v" by auto
    then show "x \<in> set (map (overwrite k v) (entries t))"
    proof cases
      case 1
      with old [of x] show ?thesis by (auto simp add: image_iff intro!: bexI [of _ x])
    next
      case 2
      with new [OF e0] e0(1) show ?thesis by (auto simp add: image_iff intro!: bexI [of _ e0])
    qed
  qed
qed

lemma Place_present:
  assumes "HashMap_inv hasher t" and "k \<in> set (keys t)"
  shows "Place hasher fuel k v t
         = Inr (True, t\<lparr>m_buckets := map (map (overwrite k v)) (m_buckets t)\<rparr>)"
proof -
  let ?i = "hasher k mod m_capacity t"
  from assms(1) have i: "?i < m_capacity t" "?i < length (m_buckets t)"
    by (simp_all add: HashMap_inv_def)
  from inv_chain [OF assms(1) i(1)] have ok: "chain_ok hasher (m_capacity t) ?i (m_buckets t ! ?i)" .
  have "chainPlace hasher k v (m_buckets t ! ?i)
        = (True, map (\<lambda>e. if m_key e = k then e\<lparr>m_value := v\<rparr> else e) (m_buckets t ! ?i))"
  proof (rule chainPlace_present)
    show "hashed hasher (m_buckets t ! ?i)" using ok by (rule chain_ok_hashed)
    show "distinct (map m_key (m_buckets t ! ?i))" using ok by (simp add: chain_ok_def)
    show "k \<in> m_key ` set (m_buckets t ! ?i)" using assms by (simp add: inv_key_bucket)
  qed
  moreover have "(\<lambda>e. if m_key e = k then e\<lparr>m_value := v\<rparr> else e) = overwrite k v"
    by (simp add: overwrite_def fun_eq_iff)
  ultimately have "chainPlace hasher k v (m_buckets t ! ?i)
        = (True, map (overwrite k v) (m_buckets t ! ?i))"
    by simp
  from PlaceInBucket_plain [OF i(2) this, of fuel] update_bucket_overwrite [OF assms(1), of k v]
    GetBucket_inv [OF assms(1), of k]
  show ?thesis by (simp add: Place_def)
qed

lemma Place_absent_plain:
  assumes "HashMap_inv hasher t" and "k \<notin> set (keys t)" and "m_count t + 1 \<le> m_maxCount t"
  shows "Place hasher fuel k v t
         = Inr (False, t\<lparr>m_buckets := (m_buckets t)[hasher k mod m_capacity t :=
                              m_buckets t ! (hasher k mod m_capacity t) @ [Entry_new hasher k v] ],
                          m_count := m_count t + 1\<rparr>)"
proof -
  let ?i = "hasher k mod m_capacity t"
  from assms(1) have i: "?i < length (m_buckets t)" by (simp add: HashMap_inv_def)
  from assms(1,2) have "k \<notin> m_key ` set (m_buckets t ! ?i)" by (simp add: inv_key_bucket)
  then have "chainPlace hasher k v (m_buckets t ! ?i)
             = (False, m_buckets t ! ?i @ [Entry_new hasher k v])"
    by (rule chainPlace_absent)
  from PlaceInBucket_plain [OF i this, of fuel] assms(3) GetBucket_inv [OF assms(1), of k]
  show ?thesis by (simp add: Place_def)
qed

lemma Place_absent_grow:
  assumes "HashMap_inv hasher t" and "k \<notin> set (keys t)" and "m_maxCount t < m_count t + 1"
  shows "Place hasher 0 k v t = Inl OutOfFuel"
    and "Place hasher (Suc fuel) k v t
         = (case Reallocate hasher fuel
                   (t\<lparr>m_buckets := (m_buckets t)[hasher k mod m_capacity t :=
                              m_buckets t ! (hasher k mod m_capacity t) @ [Entry_new hasher k v] ],
                       m_count := m_count t + 1\<rparr>) of
              Inl f \<Rightarrow> Inl f
            | Inr t2 \<Rightarrow> Inr (False, t2))"
proof -
  let ?i = "hasher k mod m_capacity t"
  from assms(1) have i: "\<not> length (m_buckets t) \<le> ?i" by (simp add: HashMap_inv_def not_le)
  from assms(1,2) have "k \<notin> m_key ` set (m_buckets t ! ?i)" by (simp add: inv_key_bucket)
  then have cp: "chainPlace hasher k v (m_buckets t ! ?i)
             = (False, m_buckets t ! ?i @ [Entry_new hasher k v])"
    by (rule chainPlace_absent)
  from i cp assms(3) GetBucket_inv [OF assms(1), of k]
  show "Place hasher 0 k v t = Inl OutOfFuel"
    by (simp add: Place_def PlaceInBucket.simps)
  from i cp assms(3) GetBucket_inv [OF assms(1), of k]
  show "Place hasher (Suc fuel) k v t
         = (case Reallocate hasher fuel
                   (t\<lparr>m_buckets := (m_buckets t)[?i := m_buckets t ! ?i @ [Entry_new hasher k v] ],
                       m_count := m_count t + 1\<rparr>) of
              Inl f \<Rightarrow> Inl f
            | Inr t2 \<Rightarrow> Inr (False, t2))"
    by (simp add: Place_def PlaceInBucket.simps)
qed

lemma Place_result:
  assumes "HashMap_inv hasher t" and "Place hasher fuel k v t = Inr (found, t')"
  shows "HashMap_inv hasher t'"
    and "found = (k \<in> set (keys t))"
    and "set (entries t') = {e \<in> set (entries t). m_key e \<noteq> k} \<union> {Entry_new hasher k v}"
    and "m_loadFactor t' = m_loadFactor t"
    and "m_capacity t' = (if k \<notin> set (keys t) \<and> m_maxCount t < m_count t + 1
                          then 2 * m_capacity t else m_capacity t)"
    and "m_count t' = (if k \<in> set (keys t) then m_count t else m_count t + 1)"
proof -
  let ?i = "hasher k mod m_capacity t"
  let ?t1 = "t\<lparr>m_buckets := (m_buckets t)[?i := m_buckets t ! ?i @ [Entry_new hasher k v] ],
                m_count := m_count t + 1\<rparr>"
  have "HashMap_inv hasher t' \<and> found = (k \<in> set (keys t))
      \<and> set (entries t') = {e \<in> set (entries t). m_key e \<noteq> k} \<union> {Entry_new hasher k v}
      \<and> m_loadFactor t' = m_loadFactor t
      \<and> m_capacity t' = (if k \<notin> set (keys t) \<and> m_maxCount t < m_count t + 1
                          then 2 * m_capacity t else m_capacity t)
      \<and> m_count t' = (if k \<in> set (keys t) then m_count t else m_count t + 1)"
  proof (cases "k \<in> set (keys t)")
    case True
    from Place_present [OF assms(1) True, of fuel v] assms(2)
    have t': "t' = t\<lparr>m_buckets := map (map (overwrite k v)) (m_buckets t)\<rparr>" and f: "found"
      by simp_all
    from placed_present_inv [OF assms(1), of k v] overwritten_entries [OF assms(1) True, of v]
    show ?thesis unfolding t' using True f by simp
  next
    case False
    have absent_set: "{e \<in> set (entries t). m_key e \<noteq> k} = set (entries t)"
      using False by (auto simp add: keys_def)
    note t1 = placed_absent_inv [OF assms(1) False, of v]
    show ?thesis
    proof (cases "m_count t + 1 \<le> m_maxCount t")
      case True
      from Place_absent_plain [OF assms(1) False True, of fuel v] assms(2)
      have "t' = ?t1" "\<not> found" by simp_all
      with t1 False True absent_set show ?thesis by simp
    next
      case grow: False
      then have g: "m_maxCount t < m_count t + 1" by simp
      from Place_absent_grow(1) [OF assms(1) False g, of v] assms(2)
      obtain n where n: "fuel = Suc n" by (cases fuel) simp_all
      from Place_absent_grow(2) [OF assms(1) False g, of n v] assms(2) n
      have re: "Reallocate hasher n ?t1 = Inr t'" and f: "\<not> found"
        by (auto split: sum.splits)
      note r = Reallocate_result [OF t1(1) re]
      from inv_count_card [OF r(1)] r(3) inv_count_card [OF t1(1)]
      have "m_count t' = m_count ?t1" by simp
      with r t1 False g f absent_set show ?thesis by simp
    qed
  qed
  then show "HashMap_inv hasher t'"
    and "found = (k \<in> set (keys t))"
    and "set (entries t') = {e \<in> set (entries t). m_key e \<noteq> k} \<union> {Entry_new hasher k v}"
    and "m_loadFactor t' = m_loadFactor t"
    and "m_capacity t' = (if k \<notin> set (keys t) \<and> m_maxCount t < m_count t + 1
                          then 2 * m_capacity t else m_capacity t)"
    and "m_count t' = (if k \<in> set (keys t) then m_count t else m_count t + 1)"
    by simp_all
qed

lemma Place_total:
  assumes "HashMap_inv hasher t" and "growth_safe t"
  shows "\<exists>found t'. Place hasher (Suc fuel) k v t = Inr (found, t') \<and> growth_safe t'"
proof -
  let ?i = "hasher k mod m_capacity t"
  let ?t1 = "t\<lparr>m_buckets := (m_buckets t)[?i := m_buckets t ! ?i @ [Entry_new hasher k v] ],
                m_count := m_count t + 1\<rparr>"
  from assms(2) have safe: "m_count t \<le> m_maxCount t"
      "1 \<le> 2 * loadProduct (m_loadFactor t) (m_capacity t)"
    by (simp_all add: growth_safe_def)
  from assms(1) have mx: "m_maxCount t = threshold (m_loadFactor t) (m_capacity t)"
    by (simp add: HashMap_inv_def)
  have ret: "\<exists>found t'. Place hasher (Suc fuel) k v t = Inr (found, t')"
  proof (cases "k \<in> set (keys t)")
    case True
    from Place_present [OF assms(1) True] show ?thesis by blast
  next
    case False
    note t1 = placed_absent_inv [OF assms(1) False, of v]
    show ?thesis
    proof (cases "m_count t + 1 \<le> m_maxCount t")
      case True
      from Place_absent_plain [OF assms(1) False True] show ?thesis by blast
    next
      case grow: False
      then have g: "m_maxCount t < m_count t + 1" by simp
      from t1(1) have "length (m_buckets ?t1) = m_capacity ?t1" "0 < m_capacity ?t1"
          "m_count ?t1 = length (entries ?t1)"
        by (simp_all add: HashMap_inv_def)
      moreover from threshold_double [OF safe(2)] safe(1) mx
      have "m_count ?t1 \<le> threshold (m_loadFactor ?t1) (m_capacity ?t1 * 2)"
        by (simp add: mult.commute)
      ultimately obtain t' where "Reallocate hasher fuel ?t1 = Inr t'"
        using Reallocate_total [of ?t1 hasher fuel] by auto
      with Place_absent_grow(2) [OF assms(1) False g, of fuel v] show ?thesis by auto
    qed
  qed
  then obtain found t' where pl: "Place hasher (Suc fuel) k v t = Inr (found, t')" by blast
  note r = Place_result [OF assms(1) pl]
  from r(1) have mx': "m_maxCount t' = threshold (m_loadFactor t') (m_capacity t')"
    by (simp add: HashMap_inv_def)
  have "growth_safe t'"
  proof (cases "k \<notin> set (keys t) \<and> m_maxCount t < m_count t + 1")
    case True
    with r have c: "m_capacity t' = 2 * m_capacity t" "m_count t' = m_count t + 1"
        "m_loadFactor t' = m_loadFactor t"
      by simp_all
    from threshold_double [OF safe(2)] safe(1) mx mx' c
    have "m_count t' \<le> m_maxCount t'" by simp
    moreover from safe(2) c loadProduct_double [of "m_loadFactor t" "m_capacity t"]
    have "1 \<le> 2 * loadProduct (m_loadFactor t') (m_capacity t')" by simp
    ultimately show ?thesis by (simp add: growth_safe_def)
  next
    case False
    with r safe mx mx' show ?thesis
      by (auto simp add: growth_safe_def split: if_splits)
  qed
  with pl show ?thesis by blast
qed

subsection \<open>Faults of placement\<close>


lemma placed_lookup:
  assumes "HashMap_inv hasher t" and "Place hasher fuel k v t = Inr (found, t')"
  shows "Entry_new hasher k v \<in> set (entries t')"
    and "lookupValue hasher k t' = Inr (Some v)"
    and "\<exists>r. subscript hasher fuel' dflt k t' = Inr (r, t') \<and> GetValue t' r = v"
proof -
  note r = Place_result [OF assms]
  from r(3) show mem: "Entry_new hasher k v \<in> set (entries t')" by simp
  from lookupValue_present [OF r(1) mem] show "lookupValue hasher k t' = Inr (Some v)"
    by (simp add: Entry_new_def)
  from subscript_present [OF r(1) mem, of fuel' dflt]
  show "\<exists>r. subscript hasher fuel' dflt k t' = Inr (r, t') \<and> GetValue t' r = v"
    by (auto simp add: Entry_new_def GetValue_def)
qed

lemma placed_others:
  assumes "HashMap_inv hasher t" and "Place hasher fuel k v t = Inr (found, t')"
    and "e \<in> set (entries t)" and "m_key e \<noteq> k"
  shows "lookupValue hasher (m_key e) t' = Inr (Some (m_value e))"
proof -
  note r = Place_result [OF assms(1,2)]
  from r(3) assms(3,4) have "e \<in> set (entries t')" by simp
  with r(1) show ?thesis by (rule lookupValue_present)
qed

lemma placed_keys:
  assumes "HashMap_inv hasher t" and "Place hasher fuel k v t = Inr (found, t')"
  shows "set (keys t') = insert k (set (keys t))"
proof -
  from Place_result(3) [OF assms]
  have "set (keys t') = m_key ` ({e \<in> set (entries t). m_key e \<noteq> k} \<union> {Entry_new hasher k v})"
    by (simp add: keys_def)
  also have "\<dots> = insert k (m_key ` set (entries t))"
    by (auto simp add: Entry_new_def image_iff)
  finally show ?thesis by (simp add: keys_def)
qed

text \<open>
  C1. On a table that satisfies the invariant, whenever \<^verbatim>\<open>Place(k, v)\<close> returns, the
  lookup at the head of \<^verbatim>\<open>operator[]\<close> finds \<open>v\<close> for \<open>k\<close>, and \<^verbatim>\<open>operator[]\<close> itself
  returns a reference to \<open>v\<close> and leaves the table as it is. \<^verbatim>\<open>Place\<close> does return on
  every table from which growth completes.
\<close>

theorem Place_then_lookup:
  assumes "HashMap_inv hasher t"
  shows "(\<forall>found t'. Place hasher fuel k v t = Inr (found, t') \<longrightarrow>
            lookupValue hasher k t' = Inr (Some v)
          \<and> (\<exists>r. subscript hasher fuel' dflt k t' = Inr (r, t') \<and> GetValue t' r = v))
       \<and> (growth_safe t \<longrightarrow> (\<exists>found t'. Place hasher (Suc fuel) k v t = Inr (found, t')))"
proof (intro conjI allI impI)
  fix found t'
  assume pl: "Place hasher fuel k v t = Inr (found, t')"
  from placed_lookup(2) [OF assms pl] show "lookupValue hasher k t' = Inr (Some v)" .
  from placed_lookup(3) [OF assms pl]
  show "\<exists>r. subscript hasher fuel' dflt k t' = Inr (r, t') \<and> GetValue t' r = v" .
next
  assume "growth_safe t"
  from Place_total [OF assms this, of fuel k v]
  show "\<exists>found t'. Place hasher (Suc fuel) k v t = Inr (found, t')" by blast
qed

lemma demo_table_safe: "growth_safe demo_table"
  by code_simp

theorem Place_then_lookup_witness:
  "HashMap_inv (\<lambda>k. k) demo_table \<and> growth_safe demo_table
   \<and> (\<exists>found t'. Place (\<lambda>k. k) (Suc 0) 7 ''G'' demo_table = Inr (found, t')
         \<and> lookupValue (\<lambda>k. k) 7 t' = Inr (Some ''G'')
         \<and> (\<exists>r. subscript (\<lambda>k. k) 0 [] 7 t' = Inr (r, t') \<and> GetValue t' r = ''G''))"
proof -
  note th = Place_then_lookup [OF demo_table_inv, where k = 7 and v = "''G''" and fuel' = 0
      and dflt = "[]"]
  from th [where fuel = 0, THEN conjunct2, THEN mp, OF demo_table_safe]
  obtain found t' where pl: "Place (\<lambda>k. k) (Suc 0) 7 ''G'' demo_table = Inr (found, t')"
    by (elim exE)
  from th [where fuel = "Suc 0", THEN conjunct1, THEN spec, THEN spec, THEN mp, OF pl]
  have "lookupValue (\<lambda>k. k) 7 t' = Inr (Some ''G'')
         \<and> (\<exists>r. subscript (\<lambda>k. k) 0 [] 7 t' = Inr (r, t') \<and> GetValue t' r = ''G'')" .
  with pl have "\<exists>found t'. Place (\<lambda>k. k) (Suc 0) 7 ''G'' demo_table = Inr (found, t')
         \<and> lookupValue (\<lambda>k. k) 7 t' = Inr (Some ''G'')
         \<and> (\<exists>r. subscript (\<lambda>k. k) 0 [] 7 t' = Inr (r, t') \<and> GetValue t' r = ''G'')"
    by blast
  with demo_table_inv demo_table_safe show ?thesis by (intro conjI)
qed

text \<open>
  C2, as the code has it. The threshold is not the floor of the product of load factor
  and capacity. In \<^verbatim>\<open>HashMap(10, 0.7f)\<close> the product \<open>11744051 / 2 ^ 24 * 10\<close> is below 7
  and its floor is 6, but rounded to single precision it is 7, and 7 is stored. After the
  keys 1 to 6, placing key 7 makes the count exceed that floor, and the capacity stays 10.
  In \<^verbatim>\<open>HashMap(300, 0.21f)\<close> 62 is stored, and the floor of 0.21 times 300 is 63.
\<close>

theorem growth_trigger_counterexample:
  "performAll id (Suc 0)
       [CallPlace 1 ''A'', CallPlace 2 ''B'', CallPlace 3 ''C'', CallPlace 4 ''D'',
        CallPlace 5 ''E'', CallPlace 6 ''F'']
       (HashMap_new 10 (11744051 / 16777216))
     = Inr crowded_table
   \<and> 7 \<notin> set (keys crowded_table)
   \<and> nat \<lfloor>m_loadFactor crowded_table * of_nat (m_capacity crowded_table)\<rfloor> = 6
   \<and> nat \<lfloor>m_loadFactor crowded_table * of_nat (m_capacity crowded_table)\<rfloor>
       < m_count crowded_table + 1
   \<and> m_maxCount crowded_table = 7
   \<and> m_capacity crowded_table = 10
   \<and> Place id (Suc 0) 7 ''G'' crowded_table
       = Inr (False,
              crowded_table\<lparr>m_buckets := (m_buckets crowded_table)[7 := [Entry_new id 7 ''G''] ],
                            m_count := 7\<rparr>)
   \<and> m_capacity (crowded_table\<lparr>m_buckets := (m_buckets crowded_table)[7 := [Entry_new id 7 ''G''] ],
                                m_count := 7\<rparr>) = 10
   \<and> m_maxCount (HashMap_new 300 (14092861 / 67108864) :: (nat, string) HashMap) = 62
   \<and> nat \<lfloor>(21 / 100 :: rat) * of_nat 300\<rfloor> = 63"
  by code_simp

text \<open>
  C2, amended. On a table that satisfies the invariant, \<open>m_maxCount\<close> is the product of
  load factor and capacity in single precision, truncated. When \<^verbatim>\<open>Place\<close> of a key that
  is not in the table makes the count exceed it and returns, the capacity is twice what it
  was, every entry that was in the table is found with its value, the new key is found
  with the new value, and the count is one more: the number of keys of the table. It does
  return on every table from which growth completes.
\<close>

theorem growth_preserves_content:
  assumes "HashMap_inv hasher t" and "k \<notin> set (keys t)" and "m_maxCount t < m_count t + 1"
  shows "m_maxCount t = nat \<lfloor>float_round (m_loadFactor t * float_round (of_nat (m_capacity t)))\<rfloor>
       \<and> (\<forall>found t'. Place hasher fuel k v t = Inr (found, t') \<longrightarrow>
            m_capacity t' = 2 * m_capacity t
          \<and> (\<forall>e \<in> set (entries t). lookupValue hasher (m_key e) t' = Inr (Some (m_value e)))
          \<and> lookupValue hasher k t' = Inr (Some v)
          \<and> Count t' = Count t + 1
          \<and> set (keys t') = insert k (set (keys t))
          \<and> Count t' = card (set (keys t')))
       \<and> (growth_safe t \<longrightarrow> (\<exists>t'. Place hasher (Suc fuel) k v t = Inr (False, t')))"
proof (intro conjI allI impI ballI)
  from assms(1)
  show "m_maxCount t = nat \<lfloor>float_round (m_loadFactor t * float_round (of_nat (m_capacity t)))\<rfloor>"
    by (simp add: HashMap_inv_def threshold_def loadProduct_def)
next
  fix found t'
  assume pl: "Place hasher fuel k v t = Inr (found, t')"
  note r = Place_result [OF assms(1) pl]
  from r(5) assms(2,3) show "m_capacity t' = 2 * m_capacity t" by simp
  from placed_lookup(2) [OF assms(1) pl] show "lookupValue hasher k t' = Inr (Some v)" .
  from r(6) assms(2) show "Count t' = Count t + 1" by (simp add: Count_def)
  from placed_keys [OF assms(1) pl] show "set (keys t') = insert k (set (keys t))" .
  from distinct_card [OF inv_distinct_keys [OF r(1)] ] r(1)
  show "Count t' = card (set (keys t'))"
    by (simp add: Count_def HashMap_inv_def keys_def)
  fix e
  assume e: "e \<in> set (entries t)"
  with assms(2) have "m_key e \<noteq> k" by (auto simp add: keys_def)
  with placed_others [OF assms(1) pl e]
  show "lookupValue hasher (m_key e) t' = Inr (Some (m_value e))" .
next
  assume "growth_safe t"
  from Place_total [OF assms(1) this, of fuel k v]
  obtain found t' where pl: "Place hasher (Suc fuel) k v t = Inr (found, t')" by blast
  from Place_result(2) [OF assms(1) pl] assms(2) have "\<not> found" by simp
  with pl show "\<exists>t'. Place hasher (Suc fuel) k v t = Inr (False, t')" by auto
qed

lemma full_table_inv: "HashMap_inv (\<lambda>k. k) full_table"
  by code_simp

lemma full_table_safe: "growth_safe full_table"
  by code_simp

theorem growth_preserves_content_witness:
  "HashMap_inv (\<lambda>k. k) full_table \<and> 4 \<notin> set (keys full_table)
   \<and> m_maxCount full_table < m_count full_table + 1 \<and> growth_safe full_table
   \<and> m_maxCount full_table = 3
   \<and> (\<exists>t'. Place (\<lambda>k. k) (Suc 0) 4 ''D'' full_table = Inr (False, t')
         \<and> m_capacity t' = 10 \<and> Count t' = 4
         \<and> lookupValue (\<lambda>k. k) 3 t' = Inr (Some ''C'')
         \<and> lookupValue (\<lambda>k. k) 4 t' = Inr (Some ''D''))"
proof -
  have absent: "4 \<notin> set (keys full_table)" by code_simp
  have over: "m_maxCount full_table < m_count full_table + 1" by code_simp
  have e3: "\<lparr>m_hashCode = 3, m_key = 3, m_value = ''C''\<rparr> \<in> set (entries full_table)"
    by code_simp
  have fields: "m_capacity full_table = 5" "Count full_table = 3" "m_maxCount full_table = 3"
    by (simp_all add: full_table_def Count_def)
  note th = growth_preserves_content [OF full_table_inv absent over, where v = "''D''"]
  from th [where fuel = 0, THEN conjunct2, THEN conjunct2, THEN mp, OF full_table_safe]
  obtain t' where pl: "Place (\<lambda>k. k) (Suc 0) 4 ''D'' full_table = Inr (False, t')"
    by (elim exE)
  note c = th [where fuel = "Suc 0", THEN conjunct2, THEN conjunct1, THEN spec, THEN spec,
      THEN mp, OF pl]
  from c have "m_capacity t' = 2 * m_capacity full_table" by (rule conjunct1)
  with fields have cap: "m_capacity t' = 10" by simp
  from c have "Count t' = Count full_table + 1" by (elim conjE)
  with fields have cnt: "Count t' = 4" by simp
  from c have "\<forall>e \<in> set (entries full_table).
      lookupValue (\<lambda>k. k) (m_key e) t' = Inr (Some (m_value e))"
    by (elim conjE)
  from bspec [OF this e3] have l3: "lookupValue (\<lambda>k. k) 3 t' = Inr (Some ''C'')" by simp
  from c have l4: "lookupValue (\<lambda>k. k) 4 t' = Inr (Some ''D'')" by (elim conjE)
  from pl cap cnt l3 l4
  have "\<exists>t'. Place (\<lambda>k. k) (Suc 0) 4 ''D'' full_table = Inr (False, t')
         \<and> m_capacity t' = 10 \<and> Count t' = 4
         \<and> lookupValue (\<lambda>k. k) 3 t' = Inr (Some ''C'')
         \<and> lookupValue (\<lambda>k. k) 4 t' = Inr (Some ''D'')"
    by (intro exI [of _ t'] conjI)
  with full_table_inv absent over full_table_safe fields(3) show ?thesis by (intro conjI)
qed

text \<open>
  C6, as the code has it. With load factor 1/4 and capacity 1 the threshold is 0 before
  and after one doubling (the products 1/4 and 1/2 are floats, and truncate to 0), so the
  first insertion exceeds it, and one doubling does not satisfy it: with fuel for one call
  of \<^verbatim>\<open>Reallocate\<close> the insertion does not finish, and with more it ends in a read outside
  the old bucket array.
\<close>

theorem growth_once_counterexample:
  "0 < (1 / 4 :: rat) \<and> (1 / 4 :: rat) \<le> 1
   \<and> HashMap_inv id (HashMap_new 1 (1 / 4) :: (nat, string) HashMap)
   \<and> m_maxCount (HashMap_new 1 (1 / 4) :: (nat, string) HashMap)
       < m_count (HashMap_new 1 (1 / 4) :: (nat, string) HashMap) + 1
   \<and> threshold (1 / 4) (2 * 1) < 1
   \<and> Place id (Suc 0) (1 :: nat) ''A'' (HashMap_new 1 (1 / 4)) = Inl OutOfFuel
   \<and> Place id (Suc (Suc 0)) (1 :: nat) ''A'' (HashMap_new 1 (1 / 4)) = Inl OutOfBounds"
  by code_simp

text \<open>
  C6, amended. On a table that satisfies the invariant, with the count within the
  threshold and the single-precision product of load factor and capacity at least one
  half, an insertion that makes the count exceed the threshold returns with fuel for a
  single call of \<^verbatim>\<open>Reallocate\<close>: the capacity is doubled once, and the count is within
  the new threshold, which is the single-precision product of the load factor and the
  doubled capacity, truncated.
\<close>

theorem growth_once:
  assumes "HashMap_inv hasher t" and "growth_safe t"
    and "k \<notin> set (keys t)" and "m_maxCount t < m_count t + 1"
  shows "\<exists>t'. Place hasher (Suc 0) k v t = Inr (False, t')
           \<and> m_capacity t' = 2 * m_capacity t
           \<and> m_maxCount t'
               = nat \<lfloor>float_round (m_loadFactor t * float_round (of_nat (2 * m_capacity t)))\<rfloor>
           \<and> m_count t' = m_count t + 1
           \<and> m_count t' \<le> m_maxCount t'
           \<and> HashMap_inv hasher t'"
proof -
  from Place_total [OF assms(1,2), of 0 k v]
  obtain found t' where pl: "Place hasher (Suc 0) k v t = Inr (found, t')"
      and safe: "growth_safe t'"
    by blast
  note r = Place_result [OF assms(1) pl]
  from r(2) assms(3) have "\<not> found" by simp
  moreover from r(5) assms(3,4) have "m_capacity t' = 2 * m_capacity t" by simp
  moreover from r(1) r(4) this
  have "m_maxCount t'
        = nat \<lfloor>float_round (m_loadFactor t * float_round (of_nat (2 * m_capacity t)))\<rfloor>"
    by (simp add: HashMap_inv_def threshold_def loadProduct_def)
  moreover from r(6) assms(3) have "m_count t' = m_count t + 1" by simp
  moreover from safe have "m_count t' \<le> m_maxCount t'" by (simp add: growth_safe_def)
  ultimately show ?thesis using pl r(1) by auto
qed

theorem growth_once_witness:
  "HashMap_inv (\<lambda>k. k) full_table \<and> growth_safe full_table \<and> 4 \<notin> set (keys full_table)
   \<and> m_maxCount full_table < m_count full_table + 1
   \<and> (\<exists>t'. Place (\<lambda>k. k) (Suc 0) 4 ''D'' full_table = Inr (False, t')
         \<and> m_capacity t' = 10 \<and> m_maxCount t' = 7 \<and> m_count t' = 4)"
proof -
  have absent: "4 \<notin> set (keys full_table)" by code_simp
  have over: "m_maxCount full_table < m_count full_table + 1" by code_simp
  have fields: "m_capacity full_table = 5" "m_count full_table = 3"
    by (simp_all add: full_table_def)
  have thr: "nat \<lfloor>float_round (m_loadFactor full_table
                 * float_round (of_nat (2 * m_capacity full_table)))\<rfloor> = 7"
    by code_simp
  from growth_once [OF full_table_inv full_table_safe absent over, where v = "''D''"]
  obtain t' where t': "Place (\<lambda>k. k) (Suc 0) 4 ''D'' full_table = Inr (False, t')"
      "m_capacity t' = 2 * m_capacity full_table"
      "m_maxCount t' = nat \<lfloor>float_round (m_loadFactor full_table
                 * float_round (of_nat (2 * m_capacity full_table)))\<rfloor>"
      "m_count t' = m_count full_table + 1"
    by (elim exE conjE)
  from t'(2) fields have "m_capacity t' = 10" by simp
  moreover from t'(3) thr have "m_maxCount t' = 7" by simp
  moreover from t'(4) fields have "m_count t' = 4" by simp
  ultimately have "\<exists>t'. Place (\<lambda>k. k) (Suc 0) 4 ''D'' full_table = Inr (False, t')
         \<and> m_capacity t' = 10 \<and> m_maxCount t' = 7 \<and> m_count t' = 4"
    using t'(1) by (intro exI [of _ t'] conjI)
  with full_table_inv full_table_safe absent over show ?thesis by (intro conjI)
qed

text \<open>
  C8, as the code has it. After \<^verbatim>\<open>Place(1, "A")\<close> and \<^verbatim>\<open>Place(1, "B")\<close> on a new table,
  where key 1 was new, the count is 1 and not the 0 from before the first call.
\<close>

theorem Place_twice_counterexample:
  "1 \<notin> set (keys (HashMap_new 2 (3 / 4) :: (nat, string) HashMap))
   \<and> Count (HashMap_new 2 (3 / 4) :: (nat, string) HashMap) = 0
   \<and> Place id (Suc 0) (1 :: nat) ''A'' (HashMap_new 2 (3 / 4))
       = Inr (False, \<lparr>m_buckets = [ [], [\<lparr>m_hashCode = 1, m_key = 1, m_value = ''A''\<rparr>] ],
                       m_capacity = 2, m_count = 1, m_loadFactor = 3 / 4, m_maxCount = 1\<rparr>)
   \<and> Place id (Suc 0) (1 :: nat) ''B''
         \<lparr>m_buckets = [ [], [\<lparr>m_hashCode = 1, m_key = 1, m_value = ''A''\<rparr>] ],
          m_capacity = 2, m_count = 1, m_loadFactor = 3 / 4, m_maxCount = 1\<rparr>
       = Inr (True, \<lparr>m_buckets = [ [], [\<lparr>m_hashCode = 1, m_key = 1, m_value = ''B''\<rparr>] ],
                      m_capacity = 2, m_count = 1, m_loadFactor = 3 / 4, m_maxCount = 1\<rparr>)
   \<and> Count \<lparr>m_buckets = [ [], [\<lparr>m_hashCode = 1 :: nat, m_key = 1 :: nat, m_value = ''B''\<rparr>] ],
             m_capacity = 2, m_count = 1, m_loadFactor = 3 / 4, m_maxCount = 1\<rparr>
       \<noteq> Count (HashMap_new 2 (3 / 4) :: (nat, string) HashMap)"
  by code_simp

text \<open>
  C8, amended. On a table that satisfies the invariant, when \<^verbatim>\<open>Place(k, v1)\<close> and then
  \<^verbatim>\<open>Place(k, v2)\<close> return, the second call reports that the key existed and leaves count
  and capacity as the first call left them; the count after the first call is the count
  before it when \<open>k\<close> was in the table and one more when \<open>k\<close> was new; and the lookup of
  \<open>k\<close> finds \<open>v2\<close>. Both calls return on every table from which growth completes.
\<close>

theorem Place_twice:
  assumes "HashMap_inv hasher t"
  shows "(\<forall>f1 t1 f2 t2.
            Place hasher fuel k v1 t = Inr (f1, t1) \<and> Place hasher fuel' k v2 t1 = Inr (f2, t2) \<longrightarrow>
              f2 \<and> Count t2 = Count t1 \<and> m_capacity t2 = m_capacity t1
            \<and> Count t1 = (if k \<in> set (keys t) then Count t else Count t + 1)
            \<and> lookupValue hasher k t2 = Inr (Some v2))
       \<and> (growth_safe t \<longrightarrow>
            (\<exists>f1 t1 f2 t2. Place hasher (Suc fuel) k v1 t = Inr (f1, t1)
                \<and> Place hasher fuel' k v2 t1 = Inr (f2, t2)))"
proof (intro conjI allI impI)
  fix f1 t1 f2 t2
  assume "Place hasher fuel k v1 t = Inr (f1, t1) \<and> Place hasher fuel' k v2 t1 = Inr (f2, t2)"
  then have p1: "Place hasher fuel k v1 t = Inr (f1, t1)"
    and p2: "Place hasher fuel' k v2 t1 = Inr (f2, t2)"
    by simp_all
  note r1 = Place_result [OF assms p1]
  from placed_keys [OF assms p1] have k1: "k \<in> set (keys t1)" by simp
  note r2 = Place_result [OF r1(1) p2]
  from r2(2) k1 show f2 by simp
  from r2(6) k1 show "Count t2 = Count t1" by (simp add: Count_def)
  from r2(5) k1 show "m_capacity t2 = m_capacity t1" by simp
  from r1(6) show "Count t1 = (if k \<in> set (keys t) then Count t else Count t + 1)"
    by (simp add: Count_def)
  from placed_lookup(2) [OF r1(1) p2] show "lookupValue hasher k t2 = Inr (Some v2)" .
next
  assume "growth_safe t"
  from Place_total [OF assms this, of fuel k v1]
  obtain f1 t1 where p1: "Place hasher (Suc fuel) k v1 t = Inr (f1, t1)" by blast
  from Place_result(1) [OF assms p1] placed_keys [OF assms p1]
  have "HashMap_inv hasher t1" "k \<in> set (keys t1)" by simp_all
  from Place_present [OF this, of fuel' v2] p1
  show "\<exists>f1 t1 f2 t2. Place hasher (Suc fuel) k v1 t = Inr (f1, t1)
                \<and> Place hasher fuel' k v2 t1 = Inr (f2, t2)"
    by blast
qed

theorem Place_twice_witness:
  "HashMap_inv (\<lambda>k. k) demo_table \<and> growth_safe demo_table \<and> 7 \<notin> set (keys demo_table)
   \<and> (\<exists>f1 t1 f2 t2. Place (\<lambda>k. k) (Suc 0) 7 ''G'' demo_table = Inr (f1, t1)
         \<and> Place (\<lambda>k. k) 0 7 ''H'' t1 = Inr (f2, t2)
         \<and> f2 \<and> Count t2 = Count t1 \<and> Count t1 = Count demo_table + 1
         \<and> lookupValue (\<lambda>k. k) 7 t2 = Inr (Some ''H''))"
proof -
  have absent: "7 \<notin> set (keys demo_table)" by code_simp
  note th = Place_twice [OF demo_table_inv, where k = 7 and ?v1.0 = "''G''" and fuel' = 0
      and ?v2.0 = "''H''"]
  from th [where fuel = 0, THEN conjunct2, THEN mp, OF demo_table_safe]
  obtain f1 t1 f2 t2 where p: "Place (\<lambda>k. k) (Suc 0) 7 ''G'' demo_table = Inr (f1, t1)"
      "Place (\<lambda>k. k) 0 7 ''H'' t1 = Inr (f2, t2)"
    by (elim exE conjE)
  from th [where fuel = "Suc 0", THEN conjunct1, THEN spec, THEN spec, THEN spec, THEN spec,
      THEN mp, OF conjI, OF p]
  have c: f2 "Count t2 = Count t1"
      "Count t1 = (if 7 \<in> set (keys demo_table) then Count demo_table else Count demo_table + 1)"
      "lookupValue (\<lambda>k. k) 7 t2 = Inr (Some ''H'')"
    by blast+
  from c(3) absent have "Count t1 = Count demo_table + 1" by simp
  with p c(1,2,4)
  have "\<exists>f1 t1 f2 t2. Place (\<lambda>k. k) (Suc 0) 7 ''G'' demo_table = Inr (f1, t1)
         \<and> Place (\<lambda>k. k) 0 7 ''H'' t1 = Inr (f2, t2)
         \<and> f2 \<and> Count t2 = Count t1 \<and> Count t1 = Count demo_table + 1
         \<and> lookupValue (\<lambda>k. k) 7 t2 = Inr (Some ''H'')"
    by (intro exI [of _ f1] exI [of _ t1] exI [of _ f2] exI [of _ t2] conjI)
  with demo_table_inv demo_table_safe absent show ?thesis by (intro conjI)
qed

subsection \<open>Indexed access\<close>







subsection \<open>Sequences of calls\<close>

lemma removed_keys:
  assumes "HashMap_inv hasher t" and "Remove hasher k t = Inr (found, t')"
  shows "set (keys t') = set (keys t) - {k}"
proof (cases "k \<in> set (keys t)")
  case False
  with Remove_absent [OF assms(1) False] assms(2) show ?thesis by simp
next
  case True
  from Remove_present(1) [OF assms(1) True] assms(2)
  have "t' = t\<lparr>m_buckets := map (filter (\<lambda>e. m_key e \<noteq> k)) (m_buckets t),
                 m_count := m_count t - 1\<rparr>"
    by simp
  then have "entries t' = filter (\<lambda>e. m_key e \<noteq> k) (entries t)"
    by (simp only: entries_filter)
  then show ?thesis by (auto simp add: keys_def)
qed

lemma Remove_total:
  assumes "HashMap_inv hasher t"
  shows "\<exists>found t'. Remove hasher k t = Inr (found, t')"
  using Remove_absent [OF assms, of k] Remove_present(1) [OF assms, of k]
  by (cases "k \<in> set (keys t)") blast+

lemma Remove_safe:
  assumes "HashMap_inv hasher t" and "growth_safe t" and "Remove hasher k t = Inr (found, t')"
  shows "growth_safe t'"
proof (cases "k \<in> set (keys t)")
  case False
  with Remove_absent [OF assms(1) False] assms(2,3) show ?thesis by simp
next
  case True
  from Remove_present(1) [OF assms(1) True] assms(3)
  have "t' = t\<lparr>m_buckets := map (filter (\<lambda>e. m_key e \<noteq> k)) (m_buckets t),
                 m_count := m_count t - 1\<rparr>"
    by simp
  with assms(2) show ?thesis by (auto simp add: growth_safe_def)
qed

lemma perform_result:
  assumes "HashMap_inv hasher t" and "perform hasher fuel c t = Inr t'"
  shows "HashMap_inv hasher t'" and "set (keys t') = track (set (keys t)) c"
proof -
  have "HashMap_inv hasher t' \<and> set (keys t') = track (set (keys t)) c"
  proof (cases c)
    case (CallPlace k v)
    with assms(2) obtain found where p: "Place hasher fuel k v t = Inr (found, t')"
      by (auto split: sum.splits)
    from Place_result(1) [OF assms(1) p] placed_keys [OF assms(1) p] CallPlace
    show ?thesis by simp
  next
    case (CallRemove k)
    with assms(2) obtain found where r: "Remove hasher k t = Inr (found, t')"
      by (auto split: sum.splits)
    from Remove_inv [OF assms(1) r] removed_keys [OF assms(1) r] CallRemove
    show ?thesis by simp
  next
    case CallClear
    with assms(2) Clear_new [OF assms(1)]
    have t': "t' = HashMap_new (m_capacity t) (m_loadFactor t)" by simp
    from assms(1) have "0 < m_capacity t" by (simp add: HashMap_inv_def)
    from inv_new [OF this, of hasher "m_loadFactor t"] CallClear show ?thesis
      unfolding t' by (simp add: keys_def entries_def HashMap_new_def)
  qed
  then show "HashMap_inv hasher t'" and "set (keys t') = track (set (keys t)) c"
    by simp_all
qed

lemma perform_total:
  assumes "HashMap_inv hasher t" and "growth_safe t"
  shows "\<exists>t'. perform hasher (Suc fuel) c t = Inr t' \<and> growth_safe t'"
proof (cases c)
  case (CallPlace k v)
  from Place_total [OF assms, of fuel k v] CallPlace show ?thesis by auto
next
  case (CallRemove k)
  from Remove_total [OF assms(1), of k]
  obtain found t' where r: "Remove hasher k t = Inr (found, t')" by blast
  from Remove_safe [OF assms r] r CallRemove show ?thesis by auto
next
  case CallClear
  from Clear_new [OF assms(1)] assms(2) CallClear show ?thesis
    by (simp add: growth_safe_def HashMap_new_def)
qed

lemma performAll_result:
  assumes "HashMap_inv hasher t" and "performAll hasher fuel cs t = Inr t'"
  shows "HashMap_inv hasher t' \<and> set (keys t') = foldl track (set (keys t)) cs"
  using assms
proof (induction cs arbitrary: t)
  case Nil
  then show ?case by simp
next
  case (Cons c cs)
  from Cons.prems(2) obtain t1 where p: "perform hasher fuel c t = Inr t1"
      and rest: "performAll hasher fuel cs t1 = Inr t'"
    by (auto split: sum.splits)
  note r = perform_result [OF Cons.prems(1) p]
  from Cons.IH [OF r(1) rest] r(2) show ?case by simp
qed

lemma performAll_total:
  assumes "HashMap_inv hasher t" and "growth_safe t"
  shows "\<exists>t'. performAll hasher (Suc fuel) cs t = Inr t'"
  using assms
proof (induction cs arbitrary: t)
  case Nil
  show ?case by simp
next
  case (Cons c cs)
  from perform_total [OF Cons.prems, of fuel c]
  obtain t1 where p: "perform hasher (Suc fuel) c t = Inr t1" and safe: "growth_safe t1"
    by blast
  from Cons.IH [OF perform_result(1) [OF Cons.prems(1) p] safe] p show ?case by simp
qed

lemma performAll_no_buckets:
  "performAll hasher fuel cs (HashMap_new 0 lf) = Inr t' \<Longrightarrow>
     t' = HashMap_new 0 lf \<and> foldl track {} cs = {}"
proof (induction cs)
  case Nil
  then show ?case by simp
next
  case (Cons c cs)
  have clear: "Clear (HashMap_new 0 lf :: ('a, 'b) HashMap) = Inr (HashMap_new 0 lf)"
    by (simp add: Clear_result HashMap_new_def)
  show ?case
  proof (cases c)
    case (CallPlace k v)
    with Cons.prems show ?thesis
      by (simp add: Place_def GetBucket_def HashMap_new_def)
  next
    case (CallRemove k)
    with Cons.prems show ?thesis
      by (simp add: Remove_def GetBucket_def HashMap_new_def)
  next
    case CallClear
    with Cons.prems clear have "performAll hasher fuel cs (HashMap_new 0 lf) = Inr t'"
      by simp
    from Cons.IH [OF this] CallClear show ?thesis by simp
  qed
qed

text \<open>
  C3. Whenever a sequence of \<^verbatim>\<open>Place\<close>, \<^verbatim>\<open>Remove\<close> and \<^verbatim>\<open>Clear\<close> calls on a new table
  returns, \<open>Count\<close> is the number of keys inserted and not removed or cleared since, the
  keys of the table are exactly those, and no key has two entries. The sequence does
  return when the initial capacity is positive and its single-precision product with the
  load factor is at least one half.
\<close>

theorem Count_tracks_live_keys:
  "(\<forall>t. performAll hasher fuel calls (HashMap_new initialCapacity loadFactor) = Inr t \<longrightarrow>
        Count t = card (liveKeys calls) \<and> set (keys t) = liveKeys calls \<and> distinct (keys t))
   \<and> (0 < initialCapacity \<and> 1 \<le> 2 * loadProduct loadFactor initialCapacity \<longrightarrow>
        (\<exists>t. performAll hasher (Suc fuel) calls (HashMap_new initialCapacity loadFactor) = Inr t))"
proof (intro conjI allI impI)
  fix t :: "('a, 'b) HashMap"
  assume run: "performAll hasher fuel calls (HashMap_new initialCapacity loadFactor) = Inr t"
  have "Count t = card (liveKeys calls) \<and> set (keys t) = liveKeys calls \<and> distinct (keys t)"
  proof (cases "initialCapacity = 0")
    case True
    with performAll_no_buckets [of hasher fuel calls loadFactor t] run
    have "t = HashMap_new 0 loadFactor" "liveKeys calls = {}"
      by (simp_all add: liveKeys_def)
    then show ?thesis
      by (simp add: Count_def keys_def entries_def HashMap_new_def)
  next
    case False
    then have "HashMap_inv hasher (HashMap_new initialCapacity loadFactor :: ('a, 'b) HashMap)"
      by (simp add: inv_new)
    from performAll_result [OF this run]
    have inv: "HashMap_inv hasher t" and ks: "set (keys t) = liveKeys calls"
      by (simp_all add: liveKeys_def keys_def entries_def HashMap_new_def)
    from distinct_card [OF inv_distinct_keys [OF inv] ] inv
    have "Count t = card (set (keys t))"
      by (simp add: Count_def HashMap_inv_def keys_def)
    with ks inv_distinct_keys [OF inv] show ?thesis by simp
  qed
  then show "Count t = card (liveKeys calls)" "set (keys t) = liveKeys calls" "distinct (keys t)"
    by simp_all
next
  assume a: "0 < initialCapacity \<and> 1 \<le> 2 * loadProduct loadFactor initialCapacity"
  then have "HashMap_inv hasher (HashMap_new initialCapacity loadFactor :: ('a, 'b) HashMap)"
    by (simp add: inv_new)
  moreover from a have "growth_safe (HashMap_new initialCapacity loadFactor :: ('a, 'b) HashMap)"
    by (simp add: growth_safe_def HashMap_new_def)
  ultimately
  show "\<exists>t. performAll hasher (Suc fuel) calls (HashMap_new initialCapacity loadFactor) = Inr t"
    by (rule performAll_total)
qed

theorem Count_tracks_live_keys_witness:
  "0 < (2 :: nat) \<and> 1 \<le> 2 * loadProduct (3 / 4) 2
   \<and> (\<exists>t. performAll (\<lambda>k. k) (Suc 0) demo_calls (HashMap_new 2 (3 / 4)) = Inr t
         \<and> Count t = 2 \<and> set (keys t) = {5, 6} \<and> distinct (keys t))"
proof -
  have pre: "0 < (2 :: nat) \<and> 1 \<le> 2 * loadProduct (3 / 4) 2" by code_simp
  have live: "liveKeys demo_calls = {5, 6}" by code_simp
  note th = Count_tracks_live_keys [where hasher = "\<lambda>k. k" and calls = demo_calls
      and initialCapacity = 2 and loadFactor = "3 / 4"]
  from th [where fuel = 0, THEN conjunct2, THEN mp, OF pre]
  obtain t where run: "performAll (\<lambda>k. k) (Suc 0) demo_calls (HashMap_new 2 (3 / 4)) = Inr t"
    by (elim exE)
  from th [where fuel = "Suc 0", THEN conjunct1, THEN spec, THEN mp, OF run] live
  have "Count t = 2 \<and> set (keys t) = {5, 6} \<and> distinct (keys t)" by simp
  with run have "\<exists>t. performAll (\<lambda>k. k) (Suc 0) demo_calls (HashMap_new 2 (3 / 4)) = Inr t
         \<and> Count t = 2 \<and> set (keys t) = {5, 6} \<and> distinct (keys t)"
    by blast
  with pre show ?thesis by blast
qed

subsection \<open>The reference scenario\<close>

text \<open>
  The run of \<^verbatim>\<open>main\<close>: growth fires once, the nineteen keys are iterated in bucket order
  with their values, removing keys 1 to 6 leaves thirteen, and \<^verbatim>\<open>Clear\<close> leaves none.
\<close>

lemma main_scenario:
  "case main_table of
     Inl f \<Rightarrow> False
   | Inr t \<Rightarrow>
       Count t = 19 \<and> m_capacity t = 32 \<and> m_maxCount t = 24
       \<and> forEach m_key (GetKeys t) = Inr [1, 2, 3, 4, 5, 6, 7, 8, 9, 10, 11, 12, 13, 14, 15, 16, 17, 18, 19]
       \<and> forEach m_value (GetValues t) = Inr (map (\<lambda>c. [c]) ''ABCDEFGHIJKLMNOPQRS'')
       \<and> (case performAll (\<lambda>k. k) 1
                  [CallRemove 1, CallRemove 2, CallRemove 3, CallRemove 4, CallRemove 5,
                   CallRemove 6] t of
             Inl f \<Rightarrow> False
           | Inr t' \<Rightarrow>
               Count t' = 13
               \<and> forEach m_key (GetKeys t') = Inr [7, 8, 9, 10, 11, 12, 13, 14, 15, 16, 17, 18, 19]
               \<and> (case Clear t' of
                     Inl f \<Rightarrow> False
                   | Inr t'' \<Rightarrow> Count t'' = 0 \<and> forEach m_key (GetKeys t'') = Inr []))"
  by code_simp

subsection \<open>Fuel\<close>

text \<open>
  Fuel only bounds the nesting of \<^verbatim>\<open>Reallocate\<close>: an outcome other than \<open>OutOfFuel\<close> is the
  outcome for every larger amount of fuel.
\<close>

lemma fuel_monotone:
  shows "PlaceInBucket hasher fuel bucket k v t \<noteq> Inl OutOfFuel \<Longrightarrow>
           PlaceInBucket hasher (fuel + extra) bucket k v t = PlaceInBucket hasher fuel bucket k v t"
    and "Reallocate hasher fuel t \<noteq> Inl OutOfFuel \<Longrightarrow>
           Reallocate hasher (fuel + extra) t = Reallocate hasher fuel t"
    and "ReallocateLoop hasher fuel oldBuckets i t \<noteq> Inl OutOfFuel \<Longrightarrow>
           ReallocateLoop hasher (fuel + extra) oldBuckets i t = ReallocateLoop hasher fuel oldBuckets i t"
    and "ReallocateChain hasher fuel c t \<noteq> Inl OutOfFuel \<Longrightarrow>
           ReallocateChain hasher (fuel + extra) c t = ReallocateChain hasher fuel c t"
proof (induction hasher fuel bucket k v t and hasher fuel t and hasher fuel oldBuckets i t
    and hasher fuel c t
    rule: PlaceInBucket_Reallocate_ReallocateLoop_ReallocateChain.induct)
  case (1 hasher fuel bucket k v t)
  obtain found c where cp: "chainPlace hasher k v (m_buckets t ! bucket) = (found, c)"
    by (cases "chainPlace hasher k v (m_buckets t ! bucket)")
  let ?t1 = "t\<lparr>m_buckets := (m_buckets t)[bucket := c], m_count := m_count t + 1\<rparr>"
  show ?case
  proof (cases "\<not> length (m_buckets t) \<le> bucket \<and> \<not> found \<and> m_maxCount ?t1 < m_count ?t1")
    case False
    with cp show ?thesis
      by (cases found) (auto simp add: PlaceInBucket.simps Let_def)
  next
    case True
    with cp "1.prems" obtain n where n: "fuel = Suc n"
      by (cases fuel) (auto simp add: PlaceInBucket.simps Let_def)
    from True cp n "1.prems" have "Reallocate hasher n ?t1 \<noteq> Inl OutOfFuel"
      by (auto simp add: PlaceInBucket.simps Let_def split: sum.splits)
    with "1.IH" [OF _ cp [symmetric] _ refl _ n] True
    have "Reallocate hasher (n + extra) ?t1 = Reallocate hasher n ?t1" by simp
    with True cp n show ?thesis
      by (simp add: PlaceInBucket.simps Let_def)
  qed
next
  case (2 hasher fuel t)
  then show ?case by (simp add: Reallocate.simps)
next
  case (3 hasher fuel oldBuckets i t)
  show ?case
  proof (cases "i < m_capacity t div 2 \<and> \<not> length oldBuckets \<le> i")
    case False
    then show ?thesis
      by (auto simp add: ReallocateLoop.simps [of hasher _ oldBuckets i t])
  next
    case True
    then have c: "i < m_capacity t div 2" "\<not> length oldBuckets \<le> i" by simp_all
    from c "3.prems" have ne: "ReallocateChain hasher fuel (oldBuckets ! i) t \<noteq> Inl OutOfFuel"
      by (auto simp add: ReallocateLoop.simps [of hasher fuel oldBuckets i t])
    from "3.IH"(1) [OF c ne]
    have ch: "ReallocateChain hasher (fuel + extra) (oldBuckets ! i) t
              = ReallocateChain hasher fuel (oldBuckets ! i) t" .
    show ?thesis
    proof (cases "ReallocateChain hasher fuel (oldBuckets ! i) t")
      case (Inl f)
      with c ch show ?thesis
        by (simp add: ReallocateLoop.simps [of hasher _ oldBuckets i t])
    next
      case (Inr t1)
      with c "3.prems" have "ReallocateLoop hasher fuel oldBuckets (i + 1) t1 \<noteq> Inl OutOfFuel"
        by (simp add: ReallocateLoop.simps [of hasher fuel oldBuckets i t])
      from "3.IH"(2) [OF c Inr this] Inr c ch show ?thesis
        by (simp add: ReallocateLoop.simps [of hasher _ oldBuckets i t])
    qed
  qed
next
  case (4 hasher fuel t)
  show ?case by simp
next
  case (5 hasher fuel e es t)
  show ?case
  proof (cases "GetBucket hasher (m_key e) t")
    case (Inl f)
    then show ?thesis by simp
  next
    case (Inr b)
    with "5.prems"
    have ne: "PlaceInBucket hasher fuel b (m_key e) (m_value e) t \<noteq> Inl OutOfFuel"
      by auto
    from "5.IH"(1) [OF Inr ne]
    have pl: "PlaceInBucket hasher (fuel + extra) b (m_key e) (m_value e) t
              = PlaceInBucket hasher fuel b (m_key e) (m_value e) t" .
    show ?thesis
    proof (cases "PlaceInBucket hasher fuel b (m_key e) (m_value e) t")
      case (Inl f)
      with Inr pl show ?thesis by simp
    next
      case res: (Inr r)
      obtain found t1 where r: "r = (found, t1)" by (cases r)
      with res Inr "5.prems" have "ReallocateChain hasher fuel es t1 \<noteq> Inl OutOfFuel"
        by simp
      from "5.IH"(2) [OF Inr res r [symmetric] this] res r Inr pl show ?thesis
        by simp
    qed
  qed
qed

lemma Place_fuel_monotone:
  "Place hasher fuel k v t \<noteq> Inl OutOfFuel \<Longrightarrow>
     Place hasher (fuel + extra) k v t = Place hasher fuel k v t"
  by (cases "GetBucket hasher k t") (simp_all add: Place_def fuel_monotone(1))

end
